theory Spec2Isabelle
  imports Complex_Main
begin

section \<open>Data model\<close>

text \<open>
  The sampler is Python 2 over floating-point numbers. Floats are idealised as the reals
  (\<open>log\<close> is \<open>ln\<close>, \<open>np.logaddexp a b\<close> is \<open>ln (exp a + exp b)\<close>); rounding, overflow and
  NaN are outside the model. Python integers that come from outside (\<open>no_active_samples\<close>,
  \<open>maximum_iterations\<close>, the likelihood-call counter) are \<open>int\<close>; the local counters
  \<open>count\<close>, \<open>hit\<close> and \<open>miss\<close> start at 0 and are only incremented, so they are \<open>nat\<close>.

  \<open>np.random.uniform(0, 1)\<close> is modelled by a finite list of draws that the code consumes from
  the front. Every iteration of a retry loop consumes at least one draw, so the list doubles as
  fuel: the value \<open>None\<close> means that the code is still looping after all the supplied draws are
  used up. An exception is the value \<open>Some (Inl e)\<close>, a normal return is \<open>Some (Inr v)\<close>.
\<close>

datatype error = ZeroDivisionError | ValueError | IndexError

type_synonym 'a res = "(error + 'a) option"

text \<open>\<open>sources.Source\<close>: the four parameters and the two derived fields.\<close>

record Source =
  X :: real
  Y :: real
  A :: real
  R :: real
  logL :: real
  logWt :: real

text \<open>
  The modules \<open>sources\<close> and \<open>clust_ellip\<close> are not part of the sources at hand. What the
  samplers use of them is a parameter: the four prior accessors, the likelihood function, the
  object that the constructor \<open>Source()\<close> builds, and the method \<open>sample\<close> of a
  \<open>Clustered_Sampler\<close> built from the active points, the likelihood constraint, the enlargement
  and the call counter (it may draw random numbers, raise, or not return).
\<close>

record Model =
  getPrior_X :: "real \<times> real"
  getPrior_Y :: "real \<times> real"
  getPrior_R :: "real \<times> real"
  getPrior_A :: "real \<times> real"
  log_likelihood :: "Source \<Rightarrow> real"
  Source_init :: Source
  Clustered_Sampler_sample ::
    "Source list \<Rightarrow> real \<Rightarrow> real \<Rightarrow> int \<Rightarrow> real list \<Rightarrow> ((Source \<times> int) \<times> real list) res"

section \<open>The Metropolis sampler of metropolis.py\<close>

text \<open>
  The attributes of the sampler object that \<open>sample\<close> changes (\<open>step\<close>, \<open>number\<close>) and the local
  variables of \<open>sample\<close>. \<open>calls\<close> is a ghost field: it counts the evaluations of
  \<open>log_likelihood\<close>. The local \<open>start\<close> is never read and is left out.
\<close>

record Chain =
  metro :: Source
  new :: Source
  number :: int
  step :: real
  count :: nat
  hit :: nat
  miss :: nat
  stepX :: real
  stepY :: real
  stepA :: real
  stepR :: real
  bord :: int
  calls :: nat

text \<open>
  One pass through the body of \<open>while bord==1\<close> (lines 72 to 81), on four draws: the four
  coordinates of \<open>new\<close> are overwritten, and \<open>bord\<close>, reset to 0 at the top of the pass, is set
  to 1 by any of the four bound tests.
\<close>

definition outside :: "Model \<Rightarrow> Source \<Rightarrow> bool" where
  "outside m s \<longleftrightarrow>
     (X s > snd (getPrior_X m) \<or> X s < fst (getPrior_X m)) \<or>
     (Y s > snd (getPrior_Y m) \<or> Y s < fst (getPrior_Y m)) \<or>
     (A s > snd (getPrior_A m) \<or> A s < fst (getPrior_A m)) \<or>
     (R s > snd (getPrior_R m) \<or> R s < fst (getPrior_R m))"

definition perturb :: "Chain \<Rightarrow> real \<Rightarrow> real \<Rightarrow> real \<Rightarrow> real \<Rightarrow> Source" where
  "perturb c u1 u2 u3 u4 =
     (new c)\<lparr>X := X (metro c) + stepX c * (2 * u1 - 1),
              Y := Y (metro c) + stepY c * (2 * u2 - 1),
              A := A (metro c) + stepA c * (2 * u3 - 1),
              R := R (metro c) + stepR c * (2 * u4 - 1)\<rparr>"

definition propose :: "Model \<Rightarrow> Chain \<Rightarrow> real \<Rightarrow> real \<Rightarrow> real \<Rightarrow> real \<Rightarrow> Chain" where
  "propose m c u1 u2 u3 u4 =
     c\<lparr>new := perturb c u1 u2 u3 u4,
       bord := (if outside m (perturb c u1 u2 u3 u4) then 1 else 0)\<rparr>"

text \<open>The loop \<open>while bord==1\<close>: it ends when a pass leaves \<open>bord\<close> at 0.\<close>

fun candidate_loop :: "Model \<Rightarrow> Chain \<Rightarrow> real list \<Rightarrow> (Chain \<times> real list) option" where
  "candidate_loop m c us =
     (if bord c = 1 then
        (case us of
           u1 # u2 # u3 # u4 # us' \<Rightarrow> candidate_loop m (propose m c u1 u2 u3 u4) us'
         | _ \<Rightarrow> None)
      else Some (c, us))"

declare candidate_loop.simps [simp del]

text \<open>
  The body of \<open>while(count<20)\<close> after the candidate is found, in the order of the source:
  the likelihood call (lines 83 and 84), the accept/reject decision (lines 86 to 90), the
  adaptation of the step (lines 92 and 93), the per-dimension steps (lines 95 to 100, where
  dividing by \<open>x_u = 0\<close> raises) and the end of the pass (lines 103 and 104).
\<close>

definition evaluate :: "Model \<Rightarrow> Chain \<Rightarrow> Chain" where
  "evaluate m c =
     (let c = c\<lparr>new := (new c)\<lparr>logL := log_likelihood m (new c)\<rparr>, calls := Suc (calls c)\<rparr>
      in c\<lparr>number := number c + 1\<rparr>)"

definition decide :: "real \<Rightarrow> Chain \<Rightarrow> Chain" where
  "decide lc c =
     (if logL (new c) > lc then c\<lparr>metro := new c, hit := hit c + 1\<rparr>
      else c\<lparr>miss := miss c + 1\<rparr>)"

definition adapt :: "Chain \<Rightarrow> Chain" where
  "adapt c =
     (let c = (if hit c > miss c then c\<lparr>step := step c * exp (1 / real (hit c))\<rparr> else c)
      in if hit c < miss c then c\<lparr>step := step c / exp (1 / real (miss c))\<rparr> else c)"

definition rescale :: "Model \<Rightarrow> Chain \<Rightarrow> error + Chain" where
  "rescale m c =
     (if snd (getPrior_X m) = 0 then Inl ZeroDivisionError
      else
        (let stepnormalize = step c / snd (getPrior_X m)
         in Inr (c\<lparr>stepX := step c,
                   stepY := stepnormalize * (snd (getPrior_Y m) - fst (getPrior_Y m)),
                   stepA := stepnormalize * (snd (getPrior_A m) - fst (getPrior_A m)),
                   stepR := stepnormalize * (snd (getPrior_R m) - fst (getPrior_R m))\<rparr>)))"

definition advance :: "Chain \<Rightarrow> Chain" where
  "advance c = c\<lparr>count := count c + 1, bord := 1\<rparr>"

definition chain_step :: "Model \<Rightarrow> real \<Rightarrow> Chain \<Rightarrow> real list \<Rightarrow> (Chain \<times> real list) res" where
  "chain_step m lc c us =
     (case candidate_loop m c us of
        None \<Rightarrow> None
      | Some (c1, us') \<Rightarrow>
          (case rescale m (adapt (decide lc (evaluate m c1))) of
             Inl e \<Rightarrow> Some (Inl e)
           | Inr c2 \<Rightarrow> Some (Inr (advance c2, us'))))"

lemma propose_count [simp]: "count (propose m c u1 u2 u3 u4) = count c"
  by (simp add: propose_def)

lemma candidate_loop_done: "bord c \<noteq> 1 \<Longrightarrow> candidate_loop m c us = Some (c, us)"
  by (subst candidate_loop.simps) simp

lemma candidate_loop_more:
  "bord c = 1 \<Longrightarrow>
   candidate_loop m c (u1 # u2 # u3 # u4 # us) = candidate_loop m (propose m c u1 u2 u3 u4) us"
  by (subst candidate_loop.simps) simp

lemma candidate_loop_short: "bord c = 1 \<Longrightarrow> length us < 4 \<Longrightarrow> candidate_loop m c us = None"
  by (subst candidate_loop.simps) (auto split: list.split)

lemma candidate_loop_cases:
  assumes "candidate_loop m c us = Some (c', us')"
  obtains (leave) "bord c \<noteq> 1" "c' = c" "us' = us"
  | (again) u1 u2 u3 u4 rest where "bord c = 1" "us = u1 # u2 # u3 # u4 # rest"
      "candidate_loop m (propose m c u1 u2 u3 u4) rest = Some (c', us')"
proof (cases "bord c = 1")
  case False
  with assms show ?thesis by (simp add: candidate_loop_done leave)
next
  case True
  show ?thesis
  proof (cases "length us < 4")
    case True
    with \<open>bord c = 1\<close> assms show ?thesis by (simp add: candidate_loop_short)
  next
    case False
    then obtain u1 u2 u3 u4 rest where us: "us = u1 # u2 # u3 # u4 # rest"
      by (cases us; simp; rename_tac b bs; case_tac bs; simp; rename_tac d ds; case_tac ds; simp;
          rename_tac e es; case_tac es; simp)
    with True assms show ?thesis by (simp add: candidate_loop_more again)
  qed
qed

lemma candidate_loop_count: "candidate_loop m c us = Some (c', us') \<Longrightarrow> count c' = count c"
proof (induction m c us rule: candidate_loop.induct)
  case (1 m c us)
  from "1.prems" show ?case
  proof (cases rule: candidate_loop_cases)
    case leave
    then show ?thesis by simp
  next
    case (again u1 u2 u3 u4 rest)
    with "1.IH" [OF again(1,2) refl refl refl] show ?thesis by simp
  qed
qed

lemma evaluate_count [simp]: "count (evaluate m c) = count c"
  by (simp add: evaluate_def Let_def)

lemma decide_count [simp]: "count (decide lc c) = count c"
  by (simp add: decide_def)

lemma adapt_count [simp]: "count (adapt c) = count c"
  by (simp add: adapt_def Let_def)

lemma rescale_count: "rescale m c = Inr c' \<Longrightarrow> count c' = count c"
  by (auto simp: rescale_def Let_def split: if_splits)

lemma chain_step_Inr:
  assumes "chain_step m lc c us = Some (Inr (c', us'))"
  obtains c1 c2 where "candidate_loop m c us = Some (c1, us')"
    and "rescale m (adapt (decide lc (evaluate m c1))) = Inr c2" and "c' = advance c2"
  using assms by (auto simp: chain_step_def split: option.splits sum.splits)

lemma chain_step_count: "chain_step m lc c us = Some (Inr (c', us')) \<Longrightarrow> count c' = Suc (count c)"
  by (erule chain_step_Inr) (simp add: advance_def rescale_count candidate_loop_count)

text \<open>The loop \<open>while(count<20)\<close>.\<close>

function chain_loop :: "Model \<Rightarrow> real \<Rightarrow> Chain \<Rightarrow> real list \<Rightarrow> (Chain \<times> real list) res" where
  "chain_loop m lc c us =
     (if count c < 20 then
        (case chain_step m lc c us of
           None \<Rightarrow> None
         | Some (Inl e) \<Rightarrow> Some (Inl e)
         | Some (Inr (c', us')) \<Rightarrow> chain_loop m lc c' us')
      else Some (Inr (c, us)))"
  by pat_completeness auto
termination
  by (relation "measure (\<lambda>(m, lc, c, us). 20 - count c)") (auto dest: chain_step_count)

declare chain_loop.simps [simp del]

text \<open>
  \<open>__init__\<close> and the start of \<open>sample\<close> (lines 36 to 67): the chain starts from a copy of the
  seed, the counter is incremented once, and the steps are derived from \<open>step = 8.0\<close>.
\<close>

definition start_chain :: "Model \<Rightarrow> Source \<Rightarrow> int \<Rightarrow> error + Chain" where
  "start_chain m to_evolve no =
     (if snd (getPrior_X m) = 0 then Inl ZeroDivisionError
      else
        (let stepnormalize = 8 / snd (getPrior_X m)
         in Inr \<lparr>metro = to_evolve, new = Source_init m, number = no + 1, step = 8,
                  count = 0, hit = 0, miss = 0,
                  stepX = 8,
                  stepY = stepnormalize * (snd (getPrior_Y m) - fst (getPrior_Y m)),
                  stepA = stepnormalize * (snd (getPrior_A m) - fst (getPrior_A m)),
                  stepR = stepnormalize * (snd (getPrior_R m) - fst (getPrior_R m)),
                  bord = 1, calls = 0\<rparr>))"

text \<open>The whole of \<open>sample\<close>, first with the final state of its variables, then as it returns.\<close>

definition Metropolis_sampler_run ::
  "Model \<Rightarrow> Source \<Rightarrow> real \<Rightarrow> int \<Rightarrow> real list \<Rightarrow> (Chain \<times> real list) res" where
  "Metropolis_sampler_run m to_evolve lc no us =
     (case start_chain m to_evolve no of
        Inl e \<Rightarrow> Some (Inl e)
      | Inr c \<Rightarrow> chain_loop m lc c us)"

definition Metropolis_sampler_sample ::
  "Model \<Rightarrow> Source \<Rightarrow> real \<Rightarrow> int \<Rightarrow> real list \<Rightarrow> ((Source \<times> int) \<times> real list) res" where
  "Metropolis_sampler_sample m to_evolve lc no us =
     (case Metropolis_sampler_run m to_evolve lc no us of
        None \<Rightarrow> None
      | Some (Inl e) \<Rightarrow> Some (Inl e)
      | Some (Inr (c, us')) \<Rightarrow> Some (Inr ((metro c, number c), us')))"

section \<open>The Metropolis sampler at the bottom of nest.py\<close>

text \<open>
  nest.py defines a class \<open>Metropolis_sampler\<close> of its own (lines 196 to 272), and it is this one
  that \<open>Nested_Sampler.metropolis_sampling\<close> instantiates. It is translated on its own here, line
  by line as above, over the same state record.
\<close>

definition nest_outside :: "Model \<Rightarrow> Source \<Rightarrow> bool" where
  "nest_outside m s \<longleftrightarrow>
     (X s > snd (getPrior_X m) \<or> X s < fst (getPrior_X m)) \<or>
     (Y s > snd (getPrior_Y m) \<or> Y s < fst (getPrior_Y m)) \<or>
     (A s > snd (getPrior_A m) \<or> A s < fst (getPrior_A m)) \<or>
     (R s > snd (getPrior_R m) \<or> R s < fst (getPrior_R m))"

definition nest_perturb :: "Chain \<Rightarrow> real \<Rightarrow> real \<Rightarrow> real \<Rightarrow> real \<Rightarrow> Source" where
  "nest_perturb c u1 u2 u3 u4 =
     (new c)\<lparr>X := X (metro c) + stepX c * (2 * u1 - 1),
              Y := Y (metro c) + stepY c * (2 * u2 - 1),
              A := A (metro c) + stepA c * (2 * u3 - 1),
              R := R (metro c) + stepR c * (2 * u4 - 1)\<rparr>"

definition nest_propose :: "Model \<Rightarrow> Chain \<Rightarrow> real \<Rightarrow> real \<Rightarrow> real \<Rightarrow> real \<Rightarrow> Chain" where
  "nest_propose m c u1 u2 u3 u4 =
     c\<lparr>new := nest_perturb c u1 u2 u3 u4,
       bord := (if nest_outside m (nest_perturb c u1 u2 u3 u4) then 1 else 0)\<rparr>"

fun nest_candidate_loop :: "Model \<Rightarrow> Chain \<Rightarrow> real list \<Rightarrow> (Chain \<times> real list) option" where
  "nest_candidate_loop m c us =
     (if bord c = 1 then
        (case us of
           u1 # u2 # u3 # u4 # us' \<Rightarrow> nest_candidate_loop m (nest_propose m c u1 u2 u3 u4) us'
         | _ \<Rightarrow> None)
      else Some (c, us))"

declare nest_candidate_loop.simps [simp del]

definition nest_evaluate :: "Model \<Rightarrow> Chain \<Rightarrow> Chain" where
  "nest_evaluate m c =
     (let c = c\<lparr>new := (new c)\<lparr>logL := log_likelihood m (new c)\<rparr>, calls := Suc (calls c)\<rparr>
      in c\<lparr>number := number c + 1\<rparr>)"

definition nest_decide :: "real \<Rightarrow> Chain \<Rightarrow> Chain" where
  "nest_decide lc c =
     (if logL (new c) > lc then c\<lparr>metro := new c, hit := hit c + 1\<rparr>
      else c\<lparr>miss := miss c + 1\<rparr>)"

definition nest_adapt :: "Chain \<Rightarrow> Chain" where
  "nest_adapt c =
     (let c = (if hit c > miss c then c\<lparr>step := step c * exp (1 / real (hit c))\<rparr> else c)
      in if hit c < miss c then c\<lparr>step := step c / exp (1 / real (miss c))\<rparr> else c)"

definition nest_rescale :: "Model \<Rightarrow> Chain \<Rightarrow> error + Chain" where
  "nest_rescale m c =
     (if snd (getPrior_X m) = 0 then Inl ZeroDivisionError
      else
        (let stepnormalize = step c / snd (getPrior_X m)
         in Inr (c\<lparr>stepX := step c,
                   stepY := stepnormalize * (snd (getPrior_Y m) - fst (getPrior_Y m)),
                   stepA := stepnormalize * (snd (getPrior_A m) - fst (getPrior_A m)),
                   stepR := stepnormalize * (snd (getPrior_R m) - fst (getPrior_R m))\<rparr>)))"

definition nest_advance :: "Chain \<Rightarrow> Chain" where
  "nest_advance c = c\<lparr>count := count c + 1, bord := 1\<rparr>"

definition nest_chain_step ::
  "Model \<Rightarrow> real \<Rightarrow> Chain \<Rightarrow> real list \<Rightarrow> (Chain \<times> real list) res" where
  "nest_chain_step m lc c us =
     (case nest_candidate_loop m c us of
        None \<Rightarrow> None
      | Some (c1, us') \<Rightarrow>
          (case nest_rescale m (nest_adapt (nest_decide lc (nest_evaluate m c1))) of
             Inl e \<Rightarrow> Some (Inl e)
           | Inr c2 \<Rightarrow> Some (Inr (nest_advance c2, us'))))"

text \<open>The two translations agree piece by piece, which also gives the second loop its measure.\<close>

lemma nest_propose_eq: "nest_propose = propose"
  by (intro ext) (simp add: nest_propose_def propose_def nest_perturb_def perturb_def
      nest_outside_def outside_def)

lemma nest_candidate_loop_eq: "nest_candidate_loop m c us = candidate_loop m c us"
proof (induction m c us rule: candidate_loop.induct)
  case (1 m c us)
  show ?case
  proof (cases "bord c = 1")
    case False
    then show ?thesis
      by (subst nest_candidate_loop.simps, subst candidate_loop.simps) simp
  next
    case True
    show ?thesis
    proof (cases "length us < 4")
      case True
      with \<open>bord c = 1\<close> show ?thesis
        by (subst nest_candidate_loop.simps, subst candidate_loop.simps)
          (auto split: list.split)
    next
      case False
      then obtain u1 u2 u3 u4 rest where us: "us = u1 # u2 # u3 # u4 # rest"
        by (cases us; simp; rename_tac b bs; case_tac bs; simp; rename_tac d ds; case_tac ds;
            simp; rename_tac e es; case_tac es; simp)
      from "1.IH" [OF True us refl refl refl]
      have "nest_candidate_loop m (propose m c u1 u2 u3 u4) rest =
            candidate_loop m (propose m c u1 u2 u3 u4) rest" .
      with True us show ?thesis
        by (subst nest_candidate_loop.simps, subst candidate_loop.simps)
          (simp add: nest_propose_eq)
    qed
  qed
qed

lemma nest_body_eq:
  "nest_evaluate = evaluate" "nest_decide = decide" "nest_adapt = adapt"
  "nest_rescale = rescale" "nest_advance = advance"
  by (intro ext, simp add: nest_evaluate_def evaluate_def nest_decide_def decide_def
      nest_adapt_def adapt_def nest_rescale_def rescale_def nest_advance_def advance_def)+

lemma nest_chain_step_eq: "nest_chain_step m lc c us = chain_step m lc c us"
  unfolding nest_chain_step_def chain_step_def nest_candidate_loop_eq nest_body_eq ..

function nest_chain_loop ::
  "Model \<Rightarrow> real \<Rightarrow> Chain \<Rightarrow> real list \<Rightarrow> (Chain \<times> real list) res" where
  "nest_chain_loop m lc c us =
     (if count c < 20 then
        (case nest_chain_step m lc c us of
           None \<Rightarrow> None
         | Some (Inl e) \<Rightarrow> Some (Inl e)
         | Some (Inr (c', us')) \<Rightarrow> nest_chain_loop m lc c' us')
      else Some (Inr (c, us)))"
  by pat_completeness auto
termination
  by (relation "measure (\<lambda>(m, lc, c, us). 20 - count c)")
    (auto simp: nest_chain_step_eq dest: chain_step_count)

declare nest_chain_loop.simps [simp del]

definition nest_start_chain :: "Model \<Rightarrow> Source \<Rightarrow> int \<Rightarrow> error + Chain" where
  "nest_start_chain m to_evolve no =
     (if snd (getPrior_X m) = 0 then Inl ZeroDivisionError
      else
        (let stepnormalize = 8 / snd (getPrior_X m)
         in Inr \<lparr>metro = to_evolve, new = Source_init m, number = no + 1, step = 8,
                  count = 0, hit = 0, miss = 0,
                  stepX = 8,
                  stepY = stepnormalize * (snd (getPrior_Y m) - fst (getPrior_Y m)),
                  stepA = stepnormalize * (snd (getPrior_A m) - fst (getPrior_A m)),
                  stepR = stepnormalize * (snd (getPrior_R m) - fst (getPrior_R m)),
                  bord = 1, calls = 0\<rparr>))"

definition nest_Metropolis_sampler_run ::
  "Model \<Rightarrow> Source \<Rightarrow> real \<Rightarrow> int \<Rightarrow> real list \<Rightarrow> (Chain \<times> real list) res" where
  "nest_Metropolis_sampler_run m to_evolve lc no us =
     (case nest_start_chain m to_evolve no of
        Inl e \<Rightarrow> Some (Inl e)
      | Inr c \<Rightarrow> nest_chain_loop m lc c us)"

definition nest_Metropolis_sampler_sample ::
  "Model \<Rightarrow> Source \<Rightarrow> real \<Rightarrow> int \<Rightarrow> real list \<Rightarrow> ((Source \<times> int) \<times> real list) res" where
  "nest_Metropolis_sampler_sample m to_evolve lc no us =
     (case nest_Metropolis_sampler_run m to_evolve lc no us of
        None \<Rightarrow> None
      | Some (Inl e) \<Rightarrow> Some (Inl e)
      | Some (Inr (c, us')) \<Rightarrow> Some (Inr ((metro c, number c), us')))"

section \<open>The nested sampler of nest.py\<close>

text \<open>What the code uses of numpy and of Python's built-ins.\<close>

text \<open>\<open>np.argmin\<close> and \<open>np.argmax\<close>: the first index of the least, and of the greatest, element.\<close>

fun np_argmin :: "real list \<Rightarrow> nat" where
  "np_argmin [] = 0"
| "np_argmin [x] = 0"
| "np_argmin (x # y # ys) = (let j = np_argmin (y # ys) in if x \<le> (y # ys) ! j then 0 else Suc j)"

fun np_argmax :: "real list \<Rightarrow> nat" where
  "np_argmax [] = 0"
| "np_argmax [x] = 0"
| "np_argmax (x # y # ys) = (let j = np_argmax (y # ys) in if x \<ge> (y # ys) ! j then 0 else Suc j)"

definition np_logaddexp :: "real \<Rightarrow> real \<Rightarrow> real" where
  "np_logaddexp a b = ln (exp a + exp b)"

text \<open>\<open>int(x)\<close> on a float truncates towards zero.\<close>

definition py_int :: "real \<Rightarrow> int" where
  "py_int x = (if 0 \<le> x then \<lfloor>x\<rfloor> else \<lceil>x\<rceil>)"

text \<open>\<open>xs[i]\<close> with a Python integer: a negative index counts from the end.\<close>

definition list_item :: "'a list \<Rightarrow> int \<Rightarrow> error + 'a" where
  "list_item xs i =
     (if 0 \<le> i \<and> i < int (length xs) then Inr (xs ! nat i)
      else if i < 0 \<and> - int (length xs) \<le> i then Inr (xs ! nat (int (length xs) + i))
      else Inl IndexError)"

text \<open>The attributes of a \<open>Nested_Sampler\<close> object.\<close>

record Nested_Sampler =
  no_active_samples :: int
  maximum_iterations :: int
  sample :: string
  plot :: bool
  convergence_threshold :: real
  active_samples :: "Source list"
  log_evidence :: real
  posterior_inferences :: "Source list"
  log_width :: real
  Information :: real
  no_likelihood :: int

text \<open>
  \<open>__init__\<close> (lines 48 to 81). It sets \<open>log_evidence\<close>, \<open>log_width\<close> and \<open>Information\<close> to
  \<open>None\<close>; \<open>fit\<close> overwrites all three before it reads them, and the model puts 0 there. The
  argument \<open>conv_thresh\<close> is ignored by the code.
\<close>

definition Nested_Sampler_init ::
  "Source list \<Rightarrow> int \<Rightarrow> int \<Rightarrow> string \<Rightarrow> bool \<Rightarrow> real \<Rightarrow> Nested_Sampler" where
  "Nested_Sampler_init active no max_iter smp plt conv_thresh =
     \<lparr>no_active_samples = no, maximum_iterations = max_iter, sample = smp, plot = plt,
      convergence_threshold = 1 / 10, active_samples = active, log_evidence = 0,
      posterior_inferences = [], log_width = 0, Information = 0, no_likelihood = no\<rparr>"

text \<open>The dictionary that \<open>fit\<close> returns, one field for each key.\<close>

record Fit_result =
  src :: "Source list"
  samples :: "Source list"
  logZ :: real
  Information_returned :: real
  likelihood_calculations :: int
  iterations :: int

text \<open>
  Lines 98 to 127 of the loop body: the worst point gets its weight, the evidence and the
  information are updated, and a copy of the worst point is appended to the posterior samples.
  \<open>np.argmin\<close> raises on an empty list. The value \<open>stop\<close> of line 106 is never read.
\<close>

definition discard :: "Nested_Sampler \<Rightarrow> real list \<Rightarrow> error + (Nested_Sampler \<times> nat)" where
  "discard ns LogL =
     (if LogL = [] then Inl ValueError
      else
        (let smallest = np_argmin LogL; largest = np_argmax LogL
         in if length (active_samples ns) \<le> smallest \<or> length (active_samples ns) \<le> largest
            then Inl IndexError
            else
              (let worst = (active_samples ns ! smallest)
                     \<lparr>logWt := log_width ns + logL (active_samples ns ! smallest)\<rparr>;
                   temp_evidence = np_logaddexp (log_evidence ns) (logWt worst)
               in Inr (ns\<lparr>active_samples := (active_samples ns)[smallest := worst],
                          Information :=
                            exp (logWt worst - temp_evidence) * logL worst +
                            exp (log_evidence ns - temp_evidence) *
                              (Information ns + log_evidence ns) - temp_evidence,
                          log_evidence := temp_evidence,
                          posterior_inferences := posterior_inferences ns @ [worst]\<rparr>,
                       smallest))))"

text \<open>
  Lines 134 to 137: draw an index until it differs from the worst one. Each pass takes one
  draw; \<open>% 0\<close> raises.
\<close>

fun pick_survivor :: "int \<Rightarrow> int \<Rightarrow> real list \<Rightarrow> (int \<times> real list) res" where
  "pick_survivor n smallest [] = None"
| "pick_survivor n smallest (u # us) =
     (if n = 0 then Some (Inl ZeroDivisionError)
      else
        (let survivor = py_int (real_of_int n * u) mod n
         in if survivor \<noteq> smallest then Some (Inr (survivor, us))
            else pick_survivor n smallest us))"

text \<open>\<open>metropolis_sampling\<close> (lines 173 to 177) builds the sampler of this file and runs it.\<close>

definition metropolis_sampling ::
  "Model \<Rightarrow> Source \<Rightarrow> real \<Rightarrow> int \<Rightarrow> real list \<Rightarrow> ((Source \<times> int) \<times> real list) res" where
  "metropolis_sampling m obj lc likelihood_calc us =
     nest_Metropolis_sampler_sample m obj lc likelihood_calc us"

text \<open>
  \<open>clustered_sampling\<close> (lines 182 to 192): a new \<open>Clustered_Sampler\<close> is built with the counter
  that the last attempt returned, until an attempt returns a point above the constraint. The
  loop has no bound of its own.
\<close>

partial_function (option) clustered_sampling ::
  "Model \<Rightarrow> Source list \<Rightarrow> real \<Rightarrow> int \<Rightarrow> real list \<Rightarrow> ((Source \<times> int) \<times> real list) res" where
  "clustered_sampling m active_points lc likelihood_calc us =
     (case Clustered_Sampler_sample m active_points lc 1 likelihood_calc us of
        None \<Rightarrow> None
      | Some (Inl e) \<Rightarrow> Some (Inl e)
      | Some (Inr ((smp, number'), us')) \<Rightarrow>
          if logL smp > lc then Some (Inr ((smp, number'), us'))
          else clustered_sampling m active_points lc number' us')"

text \<open>
  Lines 139 to 151. The two tests of \<open>self.sample\<close> follow one another in the source; the
  attribute does not change in between, so at most one of them holds. Any other value of
  \<open>self.sample\<close> leaves the ensemble as it is.
\<close>

definition replace_worst ::
  "Nested_Sampler \<Rightarrow> real list \<Rightarrow> nat \<Rightarrow> Source \<Rightarrow> int \<Rightarrow> Nested_Sampler \<times> real list" where
  "replace_worst ns LogL smallest updated number' =
     (ns\<lparr>active_samples := (active_samples ns)[smallest := updated], no_likelihood := number'\<rparr>,
      LogL[smallest := logL updated])"

definition resample ::
  "Model \<Rightarrow> Nested_Sampler \<Rightarrow> real list \<Rightarrow> nat \<Rightarrow> int \<Rightarrow> real \<Rightarrow> real list \<Rightarrow>
   ((Nested_Sampler \<times> real list) \<times> real list) res" where
  "resample m ns LogL smallest survivor lc us =
     (if sample ns = ''metropolis'' then
        (case list_item (active_samples ns) survivor of
           Inl e \<Rightarrow> Some (Inl e)
         | Inr obj \<Rightarrow>
             (case metropolis_sampling m obj lc (no_likelihood ns) us of
                None \<Rightarrow> None
              | Some (Inl e) \<Rightarrow> Some (Inl e)
              | Some (Inr ((updated, number'), us')) \<Rightarrow>
                  Some (Inr (replace_worst ns LogL smallest updated number', us'))))
      else if sample ns = ''clustered_ellipsoidal'' then
        (case clustered_sampling m (active_samples ns) lc (no_likelihood ns) us of
           None \<Rightarrow> None
         | Some (Inl e) \<Rightarrow> Some (Inl e)
         | Some (Inr ((updated, number'), us')) \<Rightarrow>
             Some (Inr (replace_worst ns LogL smallest updated number', us')))
      else Some (Inr ((ns, LogL), us)))"

text \<open>Line 154. \<open>no_active_samples\<close> is not 0 here: line 135 would have raised.\<close>

definition shrink :: "Nested_Sampler \<Rightarrow> Nested_Sampler" where
  "shrink ns = ns\<lparr>log_width := log_width ns - 1 / real_of_int (no_active_samples ns)\<rparr>"

text \<open>One pass through the body of the main loop (lines 98 to 154).\<close>

definition fit_iteration ::
  "Model \<Rightarrow> Nested_Sampler \<Rightarrow> real list \<Rightarrow> real list \<Rightarrow>
   ((Nested_Sampler \<times> real list) \<times> real list) res" where
  "fit_iteration m ns LogL us =
     (case discard ns LogL of
        Inl e \<Rightarrow> Some (Inl e)
      | Inr (ns1, smallest) \<Rightarrow>
          (case pick_survivor (no_active_samples ns1) (int smallest) us of
             None \<Rightarrow> None
           | Some (Inl e) \<Rightarrow> Some (Inl e)
           | Some (Inr (survivor, us1)) \<Rightarrow>
               (case resample m ns1 LogL smallest survivor
                       (logL (active_samples ns1 ! smallest)) us1 of
                  None \<Rightarrow> None
                | Some (Inl e) \<Rightarrow> Some (Inl e)
                | Some (Inr ((ns2, LogL2), us2)) \<Rightarrow> Some (Inr ((shrink ns2, LogL2), us2)))))"

text \<open>The main loop, over the values of \<open>range(1, self.maximum_iterations)\<close>.\<close>

fun fit_loop ::
  "Model \<Rightarrow> int list \<Rightarrow> Nested_Sampler \<Rightarrow> real list \<Rightarrow> real list \<Rightarrow>
   ((Nested_Sampler \<times> real list) \<times> real list) res" where
  "fit_loop m [] ns LogL us = Some (Inr ((ns, LogL), us))"
| "fit_loop m (iteration # its) ns LogL us =
     (case fit_iteration m ns LogL us of
        None \<Rightarrow> None
      | Some (Inl e) \<Rightarrow> Some (Inl e)
      | Some (Inr ((ns', LogL'), us')) \<Rightarrow> fit_loop m its ns' LogL' us')"

text \<open>The literal \<open>-1e300\<close> of line 89, the value the evidence starts from.\<close>

definition sentinel :: real where
  "sentinel = - (10 ^ 300)"

text \<open>
  Lines 89 to 91. \<open>1.0 / 0\<close> raises \<open>ZeroDivisionError\<close>, and \<open>log\<close> of a number that is not
  positive raises \<open>ValueError\<close>.
\<close>

definition fit_start :: "Nested_Sampler \<Rightarrow> error + Nested_Sampler" where
  "fit_start ns =
     (if no_active_samples ns = 0 then Inl ZeroDivisionError
      else if 1 - exp (- 1 / real_of_int (no_active_samples ns)) \<le> 0 then Inl ValueError
      else Inr (ns\<lparr>log_evidence := sentinel,
                  log_width := ln (1 - exp (- 1 / real_of_int (no_active_samples ns))),
                  Information := 0\<rparr>))"

definition fit_result :: "Nested_Sampler \<Rightarrow> Fit_result" where
  "fit_result ns =
     \<lparr>src = active_samples ns, samples = posterior_inferences ns, logZ = log_evidence ns,
      Information_returned = Information ns, likelihood_calculations = no_likelihood ns,
      iterations = maximum_iterations ns\<rparr>"

text \<open>\<open>fit\<close>: the dictionary it returns, together with the object as the call leaves it.\<close>

definition fit ::
  "Model \<Rightarrow> Nested_Sampler \<Rightarrow> real list \<Rightarrow> ((Fit_result \<times> Nested_Sampler) \<times> real list) res" where
  "fit m ns us =
     (case fit_start ns of
        Inl e \<Rightarrow> Some (Inl e)
      | Inr ns0 \<Rightarrow>
          (case fit_loop m [1..maximum_iterations ns0 - 1] ns0 (map logL (active_samples ns0)) us of
             None \<Rightarrow> None
           | Some (Inl e) \<Rightarrow> Some (Inl e)
           | Some (Inr ((ns', LogL'), us')) \<Rightarrow> Some (Inr ((fit_result ns', ns'), us'))))"

section \<open>Auxiliary notions\<close>

text \<open>Two Sources at the same place have the same four coordinates.\<close>

definition same_place :: "Source \<Rightarrow> Source \<Rightarrow> bool" where
  "same_place s t \<longleftrightarrow> X s = X t \<and> Y s = Y t \<and> A s = A t \<and> R s = R t"

text \<open>The state in which the attempt number \<open>k\<close> of \<open>clustered_sampling\<close> is made, if it is made.\<close>

primrec retry_state ::
  "Model \<Rightarrow> Source list \<Rightarrow> real \<Rightarrow> int \<Rightarrow> real list \<Rightarrow> nat \<Rightarrow> (int \<times> real list) option" where
  "retry_state m pts lc no us 0 = Some (no, us)"
| "retry_state m pts lc no us (Suc k) =
     (case retry_state m pts lc no us k of
        None \<Rightarrow> None
      | Some (no1, us1) \<Rightarrow>
          (case Clustered_Sampler_sample m pts lc 1 no1 us1 of
             Some (Inr ((smp, no2), us2)) \<Rightarrow> if logL smp > lc then None else Some (no2, us2)
           | _ \<Rightarrow> None))"

text \<open>The predicate that the induction over the retries of \<open>clustered_sampling\<close> carries.\<close>

definition from_a_retry ::
  "Model \<Rightarrow> Source list \<Rightarrow> real \<Rightarrow> int \<Rightarrow> real list \<Rightarrow> (error + (Source \<times> int) \<times> real list) \<Rightarrow> bool" where
  "from_a_retry m pts lc no us y \<longleftrightarrow>
     (\<forall>s n us'. y = Inr ((s, n), us') \<longrightarrow>
      (\<exists>k no1 us1. retry_state m pts lc no us k = Some (no1, us1) \<and>
           Clustered_Sampler_sample m pts lc 1 no1 us1 = Some (Inr ((s, n), us')) \<and> lc < logL s))"

section \<open>Concrete inputs\<close>

text \<open>
  The bounds are those of the scenario in the specification; the likelihood has its peak at
  \<open>X = 100\<close>. \<open>chain0\<close> is the state in which \<open>sample\<close> enters its loop from the seed \<open>peak\<close>
  with counter 0.
\<close>

definition bump_model :: Model where
  "bump_model =
     \<lparr>getPrior_X = (0, 200), getPrior_Y = (0, 200), getPrior_R = (2, 9), getPrior_A = (1, 14),
      log_likelihood = (\<lambda>s. - ((X s - 100)\<^sup>2)),
      Source_init = \<lparr>X = 0, Y = 0, A = 0, R = 0, logL = 0, logWt = 0\<rparr>,
      Clustered_Sampler_sample = (\<lambda>pts lc e no us. None)\<rparr>"

definition peak :: Source where
  "peak = \<lparr>X = 100, Y = 100, A = 5, R = 4, logL = 0, logWt = 0\<rparr>"

definition walked :: Source where
  "walked = \<lparr>X = 104, Y = 100, A = 5, R = 4, logL = - 16, logWt = 0\<rparr>"

definition chain0 :: Chain where
  "chain0 = \<lparr>metro = peak, new = Source_init bump_model, number = 1, step = 8,
             count = 0, hit = 0, miss = 0, stepX = 8, stepY = 8, stepA = 13 / 25,
             stepR = 7 / 25, bord = 1, calls = 0\<rparr>"


text \<open>
  A model whose clustered sampler takes one draw \<open>u\<close>, proposes the point with \<open>X = 200 u\<close> on
  the line through the peak, and counts one likelihood call.
\<close>

definition scan_model :: Model where
  "scan_model =
     bump_model\<lparr>Clustered_Sampler_sample :=
       (\<lambda>pts lc e no us.
          case us of
            [] \<Rightarrow> None
          | u # us' \<Rightarrow>
              Some (Inr ((\<lparr>X = 200 * u, Y = 100, A = 5, R = 4,
                            logL = - ((200 * u - 100)\<^sup>2), logWt = 0\<rparr>, no + 1), us')))\<rparr>"

text \<open>
  A fresh sampler over two points, the second at the peak, for one pass of the main loop with
  the Metropolis strategy; the state in which \<open>fit\<close> enters its loop from it; and the state
  in which a run on draws of one half leaves it.
\<close>

definition far :: "real \<Rightarrow> Source" where
  "far l = \<lparr>X = 90, Y = 100, A = 5, R = 4, logL = l, logWt = 0\<rparr>"

definition two_points :: "real \<Rightarrow> Nested_Sampler" where
  "two_points l = Nested_Sampler_init [far l, peak] 2 2 ''metropolis'' False (1 / 10)"

definition two_points_started :: "real \<Rightarrow> Nested_Sampler" where
  "two_points_started l =
     (two_points l)\<lparr>log_evidence := sentinel, log_width := ln (1 - exp (- 1 / 2)),
                    Information := 0\<rparr>"

definition two_points_done :: "real \<Rightarrow> Nested_Sampler" where
  "two_points_done l =
     (let w = ln (1 - exp (- 1 / 2)) + l; z = np_logaddexp sentinel w
      in \<lparr>no_active_samples = 2, maximum_iterations = 2, sample = ''metropolis'', plot = False,
           convergence_threshold = 1 / 10, active_samples = [peak, peak], log_evidence = z,
           posterior_inferences = [(far l)\<lparr>logWt := w\<rparr>],
           log_width = ln (1 - exp (- 1 / 2)) - 1 / 2,
           Information = exp (w - z) * l + exp (sentinel - z) * (0 + sentinel) - z,
           no_likelihood = 23\<rparr>)"

section \<open>Properties of the Metropolis chain\<close>

lemma candidate_loop_frame:
  "candidate_loop m c us = Some (c1, us') \<Longrightarrow> c1 = c\<lparr>new := new c1, bord := bord c1\<rparr>"
proof (induction m c us rule: candidate_loop.induct)
  case (1 m c us)
  from "1.prems" show ?case
  proof (cases rule: candidate_loop_cases)
    case leave
    then show ?thesis by simp
  next
    case (again u1 u2 u3 u4 rest)
    from "1.IH" [OF again(1,2) refl refl refl again(3)]
    have "c1 = (propose m c u1 u2 u3 u4)\<lparr>new := new c1, bord := bord c1\<rparr>" .
    then show ?thesis by (simp add: propose_def)
  qed
qed

lemma candidate_loop_inside:
  "candidate_loop m c us = Some (c1, us') \<Longrightarrow> bord c = 1 \<or> \<not> outside m (new c) \<Longrightarrow>
   \<not> outside m (new c1) \<and> bord c1 \<noteq> 1"
proof (induction m c us rule: candidate_loop.induct)
  case (1 m c us)
  from "1.prems"(1) show ?case
  proof (cases rule: candidate_loop_cases)
    case leave
    with "1.prems"(2) show ?thesis by simp
  next
    case (again u1 u2 u3 u4 rest)
    have "bord (propose m c u1 u2 u3 u4) = 1 \<or> \<not> outside m (new (propose m c u1 u2 u3 u4))"
      by (simp add: propose_def)
    with "1.IH" [OF again(1,2) refl refl refl again(3)] show ?thesis by simp
  qed
qed

lemma rescale_Inr:
  assumes "rescale m c = Inr c'"
  shows "snd (getPrior_X m) \<noteq> 0"
    and "c' = c\<lparr>stepX := step c,
              stepY := step c / snd (getPrior_X m) * (snd (getPrior_Y m) - fst (getPrior_Y m)),
              stepA := step c / snd (getPrior_X m) * (snd (getPrior_A m) - fst (getPrior_A m)),
              stepR := step c / snd (getPrior_X m) * (snd (getPrior_R m) - fst (getPrior_R m))\<rparr>"
  using assms by (auto simp: rescale_def Let_def split: if_splits)

lemma evaluate_fields [simp]:
  "metro (evaluate m c) = metro c" "number (evaluate m c) = number c + 1"
  "calls (evaluate m c) = Suc (calls c)" "hit (evaluate m c) = hit c" "miss (evaluate m c) = miss c"
  "step (evaluate m c) = step c"
  "new (evaluate m c) = (new c)\<lparr>logL := log_likelihood m (new c)\<rparr>"
  by (simp_all add: evaluate_def Let_def)

lemma decide_fields [simp]:
  "number (decide lc c) = number c" "calls (decide lc c) = calls c" "step (decide lc c) = step c"
  "new (decide lc c) = new c"
  "metro (decide lc c) = (if logL (new c) > lc then new c else metro c)"
  "hit (decide lc c) = (if logL (new c) > lc then Suc (hit c) else hit c)"
  "miss (decide lc c) = (if logL (new c) > lc then miss c else Suc (miss c))"
  by (simp_all add: decide_def)

lemma adapt_fields [simp]:
  "number (adapt c) = number c" "calls (adapt c) = calls c" "metro (adapt c) = metro c"
  "new (adapt c) = new c" "hit (adapt c) = hit c" "miss (adapt c) = miss c"
  "step (adapt c) =
     (if hit c > miss c then step c * exp (1 / real (hit c))
      else if miss c > hit c then step c / exp (1 / real (miss c)) else step c)"
  by (simp_all add: adapt_def Let_def)

lemma rescale_fields:
  assumes "rescale m c = Inr c'"
  shows "number c' = number c" "calls c' = calls c" "metro c' = metro c" "new c' = new c"
    "hit c' = hit c" "miss c' = miss c" "step c' = step c" "count c' = count c"
    "stepX c' = step c"
    "stepY c' = step c / snd (getPrior_X m) * (snd (getPrior_Y m) - fst (getPrior_Y m))"
    "stepA c' = step c / snd (getPrior_X m) * (snd (getPrior_A m) - fst (getPrior_A m))"
    "stepR c' = step c / snd (getPrior_X m) * (snd (getPrior_R m) - fst (getPrior_R m))"
  by (simp_all add: rescale_Inr(2) [OF assms])

lemma advance_fields [simp]:
  "number (advance c) = number c" "calls (advance c) = calls c" "metro (advance c) = metro c"
  "new (advance c) = new c" "hit (advance c) = hit c" "miss (advance c) = miss c"
  "step (advance c) = step c" "count (advance c) = Suc (count c)" "bord (advance c) = 1"
  "stepX (advance c) = stepX c" "stepY (advance c) = stepY c" "stepA (advance c) = stepA c"
  "stepR (advance c) = stepR c"
  by (simp_all add: advance_def)

lemma candidate_loop_fields:
  assumes "candidate_loop m c us = Some (c1, us')"
  shows "metro c1 = metro c" "number c1 = number c" "calls c1 = calls c" "hit c1 = hit c"
    "miss c1 = miss c" "step c1 = step c"
  by (subst candidate_loop_frame [OF assms], simp)+

text \<open>What one pass of the chain does to each variable.\<close>

lemma chain_step_fields:
  assumes "chain_step m lc c us = Some (Inr (c', us'))"
  obtains c1 where "candidate_loop m c us = Some (c1, us')"
    and "snd (getPrior_X m) \<noteq> 0"
    and "number c' = number c + 1" and "calls c' = Suc (calls c)" and "count c' = Suc (count c)"
    and "bord c' = 1"
    and "new c' = (new c1)\<lparr>logL := log_likelihood m (new c1)\<rparr>"
    and "metro c' = (if log_likelihood m (new c1) > lc then new c' else metro c)"
    and "hit c' = (if log_likelihood m (new c1) > lc then Suc (hit c) else hit c)"
    and "miss c' = (if log_likelihood m (new c1) > lc then miss c else Suc (miss c))"
    and "step c' =
      (if hit c' > miss c' then step c * exp (1 / real (hit c'))
       else if miss c' > hit c' then step c / exp (1 / real (miss c')) else step c)"
    and "stepX c' = step c'"
    and "stepY c' = step c' / snd (getPrior_X m) * (snd (getPrior_Y m) - fst (getPrior_Y m))"
    and "stepA c' = step c' / snd (getPrior_X m) * (snd (getPrior_A m) - fst (getPrior_A m))"
    and "stepR c' = step c' / snd (getPrior_X m) * (snd (getPrior_R m) - fst (getPrior_R m))"
proof -
  from assms obtain c1 c2 where c1: "candidate_loop m c us = Some (c1, us')"
    and c2: "rescale m (adapt (decide lc (evaluate m c1))) = Inr c2" and c': "c' = advance c2"
    by (rule chain_step_Inr)
  note f = rescale_fields [OF c2] candidate_loop_fields [OF c1]
  show ?thesis
  proof (rule that [OF c1 rescale_Inr(1) [OF c2]])
    show "number c' = number c + 1" by (simp add: c' f)
    show "calls c' = Suc (calls c)" by (simp add: c' f)
    show "count c' = Suc (count c)" using chain_step_count [OF assms] .
    show "bord c' = 1" by (simp add: c')
    show "new c' = (new c1)\<lparr>logL := log_likelihood m (new c1)\<rparr>" by (simp add: c' f)
    show "metro c' = (if log_likelihood m (new c1) > lc then new c' else metro c)"
      by (simp add: c' f)
    show "hit c' = (if log_likelihood m (new c1) > lc then Suc (hit c) else hit c)"
      by (simp add: c' f)
    show "miss c' = (if log_likelihood m (new c1) > lc then miss c else Suc (miss c))"
      by (simp add: c' f)
    show "step c' =
      (if hit c' > miss c' then step c * exp (1 / real (hit c'))
       else if miss c' > hit c' then step c / exp (1 / real (miss c')) else step c)"
      by (simp add: c' f)
    show "stepX c' = step c'" by (simp add: c' f)
    show "stepY c' = step c' / snd (getPrior_X m) * (snd (getPrior_Y m) - fst (getPrior_Y m))"
      by (simp add: c' f)
    show "stepA c' = step c' / snd (getPrior_X m) * (snd (getPrior_A m) - fst (getPrior_A m))"
      by (simp add: c' f)
    show "stepR c' = step c' / snd (getPrior_X m) * (snd (getPrior_R m) - fst (getPrior_R m))"
      by (simp add: c' f)
  qed
qed

lemma chain_loop_stop: "\<not> count c < 20 \<Longrightarrow> chain_loop m lc c us = Some (Inr (c, us))"
  by (subst chain_loop.simps) simp

lemma chain_loop_unfold:
  "count c < 20 \<Longrightarrow>
   chain_loop m lc c us =
     (case chain_step m lc c us of
        None \<Rightarrow> None
      | Some (Inl e) \<Rightarrow> Some (Inl e)
      | Some (Inr (c', us')) \<Rightarrow> chain_loop m lc c' us')"
  by (subst chain_loop.simps) simp

lemma chain_loop_invariant:
  assumes "chain_loop m lc c us = Some (Inr (c', us'))"
    and "P c"
    and "\<And>c us c' us'.
           P c \<Longrightarrow> count c < 20 \<Longrightarrow> chain_step m lc c us = Some (Inr (c', us')) \<Longrightarrow> P c'"
  shows "P c' \<and> \<not> count c' < 20"
  using assms
proof (induction m lc c us rule: chain_loop.induct)
  case (1 m lc c us)
  show ?case
  proof (cases "count c < 20")
    case False
    with "1.prems" show ?thesis by (simp add: chain_loop_stop)
  next
    case True
    with "1.prems"(1) obtain c2 us2 where st: "chain_step m lc c us = Some (Inr (c2, us2))"
      and lp: "chain_loop m lc c2 us2 = Some (Inr (c', us'))"
      by (auto simp: chain_loop_unfold split: option.splits sum.splits)
    from "1.prems"(3) [OF "1.prems"(2) True st] have "P c2" .
    from "1.IH" [OF True st refl refl lp this "1.prems"(3)] show ?thesis by simp
  qed
qed

subsection \<open>Runs on draws of one half, which leave every coordinate where it is\<close>

lemma same_place_refl [simp]: "same_place s s"
  by (simp add: same_place_def)

lemma same_place_logL [simp]: "same_place (s\<lparr>logL := l\<rparr>) t = same_place s t"
  by (simp add: same_place_def)

lemma same_place_logL_right [simp]: "same_place s (t\<lparr>logL := l\<rparr>) = same_place s t"
  by (simp add: same_place_def)

lemma same_place_outside: "same_place s t \<Longrightarrow> outside m s = outside m t"
  by (simp add: same_place_def outside_def)

lemma candidate_loop_first:
  "bord c = 1 \<Longrightarrow> \<not> outside m (perturb c u1 u2 u3 u4) \<Longrightarrow>
   candidate_loop m c (u1 # u2 # u3 # u4 # us) = Some (propose m c u1 u2 u3 u4, us)"
  by (simp add: candidate_loop_more candidate_loop_done propose_def)

lemma chain_step_returns:
  assumes "bord c = 1" and "\<not> outside m (perturb c u1 u2 u3 u4)" and "snd (getPrior_X m) \<noteq> 0"
  obtains c' where "chain_step m lc c (u1 # u2 # u3 # u4 # us) = Some (Inr (c', us))"
    and "new c' = (perturb c u1 u2 u3 u4)\<lparr>logL := log_likelihood m (perturb c u1 u2 u3 u4)\<rparr>"
    and "metro c' = (if log_likelihood m (perturb c u1 u2 u3 u4) > lc then new c' else metro c)"
    and "bord c' = 1" and "count c' = Suc (count c)"
proof -
  have cl: "candidate_loop m c (u1 # u2 # u3 # u4 # us) = Some (propose m c u1 u2 u3 u4, us)"
    using assms(1,2) by (rule candidate_loop_first)
  obtain c2 where c2: "rescale m (adapt (decide lc (evaluate m (propose m c u1 u2 u3 u4)))) = Inr c2"
    using assms(3) by (simp add: rescale_def Let_def)
  have st: "chain_step m lc c (u1 # u2 # u3 # u4 # us) = Some (Inr (advance c2, us))"
    by (simp add: chain_step_def cl c2)
  from st show ?thesis
  proof (rule chain_step_fields)
    fix c1
    assume "candidate_loop m c (u1 # u2 # u3 # u4 # us) = Some (c1, us)"
    with cl have c1: "new c1 = perturb c u1 u2 u3 u4" by (simp add: propose_def)
    assume "new (advance c2) = (new c1)\<lparr>logL := log_likelihood m (new c1)\<rparr>"
      "metro (advance c2) = (if log_likelihood m (new c1) > lc then new (advance c2) else metro c)"
      "bord (advance c2) = 1" "count (advance c2) = Suc (count c)"
    with c1 st show ?thesis by (intro that [of "advance c2"]) simp_all
  qed
qed

subsection \<open>The whole of \<open>sample\<close>\<close>

lemma start_chain_fields:
  assumes "start_chain m s no = Inr c"
  shows "snd (getPrior_X m) \<noteq> 0" "metro c = s" "new c = Source_init m" "number c = no + 1"
    "count c = 0" "calls c = 0" "hit c = 0" "miss c = 0" "bord c = 1" "step c = 8"
  using assms by (auto simp: start_chain_def Let_def split: if_splits)

lemma start_chain_ok: "snd (getPrior_X m) \<noteq> 0 \<Longrightarrow> \<exists>c. start_chain m s no = Inr c"
  by (simp add: start_chain_def Let_def)

lemma run_Inr:
  assumes "Metropolis_sampler_run m s lc no us = Some (Inr (c', us'))"
  obtains c where "start_chain m s no = Inr c" and "chain_loop m lc c us = Some (Inr (c', us'))"
  using assms by (auto simp: Metropolis_sampler_run_def split: sum.splits)

lemma sample_Inr:
  assumes "Metropolis_sampler_sample m s lc no us = Some (Inr ((s', n), us'))"
  obtains c' where "Metropolis_sampler_run m s lc no us = Some (Inr (c', us'))"
    and "s' = metro c'" and "n = number c'"
  using assms by (auto simp: Metropolis_sampler_sample_def split: option.splits sum.splits)

lemma run_counts:
  assumes "Metropolis_sampler_run m s lc no us = Some (Inr (c', us'))"
  shows "count c' = 20 \<and> calls c' = 20 \<and> number c' = no + 21"
proof -
  from assms obtain c where c: "start_chain m s no = Inr c"
    and lp: "chain_loop m lc c us = Some (Inr (c', us'))" by (rule run_Inr)
  let ?P = "\<lambda>c. count c \<le> 20 \<and> calls c = count c \<and> number c = no + 1 + int (count c)"
  have "?P c' \<and> \<not> count c' < 20"
  proof (rule chain_loop_invariant [OF lp])
    show "?P c" by (simp add: start_chain_fields [OF c])
  next
    fix d vs d' vs'
    assume "?P d" "count d < 20" "chain_step m lc d vs = Some (Inr (d', vs'))"
    then show "?P d'" by (elim chain_step_fields) simp
  qed
  then show ?thesis by simp
qed

lemma run_above_or_seed:
  assumes "Metropolis_sampler_run m s lc no us = Some (Inr (c', us'))"
  shows "metro c' = s \<or> lc < logL (metro c')"
proof -
  from assms obtain c where c: "start_chain m s no = Inr c"
    and lp: "chain_loop m lc c us = Some (Inr (c', us'))" by (rule run_Inr)
  let ?P = "\<lambda>c. metro c = s \<or> lc < logL (metro c)"
  have "?P c' \<and> \<not> count c' < 20"
  proof (rule chain_loop_invariant [OF lp])
    show "?P c" by (simp add: start_chain_fields [OF c])
  next
    fix d vs d' vs'
    assume "?P d" "count d < 20" "chain_step m lc d vs = Some (Inr (d', vs'))"
    then show "?P d'" by (elim chain_step_fields) (auto split: if_splits)
  qed
  then show ?thesis by simp
qed

lemma perturb_settled:
  "same_place (new c) (metro c) \<Longrightarrow> perturb c (1/2) (1/2) (1/2) (1/2) = new c"
  by (simp add: perturb_def same_place_def)

lemma chain_loop_settled:
  assumes "bord c = 1" and "\<not> outside m (metro c)" and "snd (getPrior_X m) \<noteq> 0"
    and "count c + n = 20"
    and "same_place (new c) (metro c)" and "log_likelihood m (new c) = logL (new c)"
  shows "\<exists>c'. chain_loop m lc c (replicate (4 * n) (1/2) @ us) = Some (Inr (c', us)) \<and>
           metro c' = (if 0 < n \<and> lc < logL (new c) then new c else metro c)"
  using assms
proof (induction n arbitrary: c)
  case 0
  then show ?case by (simp add: chain_loop_stop)
next
  case (Suc n)
  have p: "perturb c (1/2) (1/2) (1/2) (1/2) = new c"
    using Suc.prems(5) by (rule perturb_settled)
  from Suc.prems(2,5) have ins: "\<not> outside m (perturb c (1/2) (1/2) (1/2) (1/2))"
    by (simp add: p same_place_outside)
  obtain c1 where st: "chain_step m lc c (1/2 # 1/2 # 1/2 # 1/2 # replicate (4 * n) (1/2) @ us)
        = Some (Inr (c1, replicate (4 * n) (1/2) @ us))"
    and n1: "new c1 = (new c)\<lparr>logL := log_likelihood m (new c)\<rparr>"
    and m1: "metro c1 = (if log_likelihood m (new c) > lc then new c1 else metro c)"
    and b1: "bord c1 = 1" and k1: "count c1 = Suc (count c)"
    using chain_step_returns [OF Suc.prems(1) ins Suc.prems(3)] unfolding p by metis
  from n1 Suc.prems(6) have n1': "new c1 = new c" by simp
  have sp1: "same_place (new c1) (metro c1)"
    using Suc.prems(5) by (simp add: m1 n1')
  have "same_place (metro c1) (metro c)" using Suc.prems(5) by (simp add: m1 n1')
  with Suc.prems(2) have o1: "\<not> outside m (metro c1)" by (simp add: same_place_outside)
  from Suc.prems(6) have l1: "log_likelihood m (new c1) = logL (new c1)" by (simp add: n1')
  from Suc.IH [OF b1 o1 Suc.prems(3) _ sp1 l1] Suc.prems(4) k1
  obtain c' where lp: "chain_loop m lc c1 (replicate (4 * n) (1/2) @ us) = Some (Inr (c', us))"
    and m': "metro c' = (if 0 < n \<and> lc < logL (new c1) then new c1 else metro c1)"
    by auto
  have rep: "replicate (4 * Suc n) (1/2::real) @ us =
      1/2 # 1/2 # 1/2 # 1/2 # replicate (4 * n) (1/2) @ us"
    by (simp add: numeral_eq_Suc)
  from Suc.prems(4) have "count c < 20" by simp
  then have "chain_loop m lc c (replicate (4 * Suc n) (1/2) @ us) = Some (Inr (c', us))"
    unfolding rep by (simp add: chain_loop_unfold st lp)
  moreover have "metro c' = (if lc < logL (new c) then new c else metro c)"
    using Suc.prems(6) by (simp add: m' m1 n1')
  ultimately show ?case by simp
qed

text \<open>
  A run on draws of one half from a seed inside the bounds, for a likelihood that does not
  read the stored \<open>logL\<close> of its argument at the seed's place.
\<close>

lemma run_quiet:
  fixes m seed
  defines "p \<equiv> (Source_init m)\<lparr>X := X seed, Y := Y seed, A := A seed, R := R seed\<rparr>"
  assumes "\<not> outside m seed" and "snd (getPrior_X m) \<noteq> 0"
    and "log_likelihood m (p\<lparr>logL := log_likelihood m p\<rparr>) = log_likelihood m p"
  shows "\<exists>c'. Metropolis_sampler_run m seed lc no (replicate 80 (1/2) @ us) = Some (Inr (c', us)) \<and>
           metro c' = (if lc < log_likelihood m p then p\<lparr>logL := log_likelihood m p\<rparr> else seed)"
proof -
  from assms(3) obtain c where c: "start_chain m seed no = Inr c"
    using start_chain_ok by blast
  note f = start_chain_fields [OF c]
  have pp: "perturb c (1/2) (1/2) (1/2) (1/2) = p"
    by (simp add: perturb_def p_def f)
  have "same_place p seed" by (simp add: same_place_def p_def)
  with assms(2) have ins: "\<not> outside m (perturb c (1/2) (1/2) (1/2) (1/2))"
    by (simp add: pp same_place_outside)
  obtain c1 where st: "chain_step m lc c (1/2 # 1/2 # 1/2 # 1/2 # replicate 76 (1/2) @ us)
        = Some (Inr (c1, replicate 76 (1/2) @ us))"
    and n1: "new c1 = p\<lparr>logL := log_likelihood m p\<rparr>"
    and m1: "metro c1 = (if log_likelihood m p > lc then new c1 else seed)"
    and b1: "bord c1 = 1" and k1: "count c1 = Suc 0"
    using chain_step_returns [OF f(9) ins f(1)] unfolding pp f by metis
  have sp1: "same_place (new c1) (metro c1)"
    using \<open>same_place p seed\<close> by (simp add: m1 n1)
  have "same_place (metro c1) seed" using \<open>same_place p seed\<close> by (simp add: m1 n1)
  with assms(2) have o1: "\<not> outside m (metro c1)" by (simp add: same_place_outside)
  have l1: "log_likelihood m (new c1) = logL (new c1)" using assms(4) by (simp add: n1)
  have "count c1 + 19 = 20" by (simp add: k1)
  from chain_loop_settled [OF b1 o1 f(1) this sp1 l1, of lc us]
  obtain c' where lp: "chain_loop m lc c1 (replicate 76 (1/2) @ us) = Some (Inr (c', us))"
    and m': "metro c' = (if lc < logL (new c1) then new c1 else metro c1)"
    by auto
  have rep: "replicate 80 (1/2::real) @ us = 1/2 # 1/2 # 1/2 # 1/2 # replicate 76 (1/2) @ us"
    by (simp add: eval_nat_numeral)
  have "Metropolis_sampler_run m seed lc no (replicate 80 (1/2) @ us) = Some (Inr (c', us))"
    unfolding rep by (simp add: Metropolis_sampler_run_def c chain_loop_unfold f st lp)
  moreover have "metro c' = (if lc < log_likelihood m p then p\<lparr>logL := log_likelihood m p\<rparr> else seed)"
    by (simp add: m' m1 n1)
  ultimately show ?thesis by blast
qed

lemma nest_chain_loop_eq: "nest_chain_loop m lc c us = chain_loop m lc c us"
proof (induction m lc c us rule: chain_loop.induct)
  case (1 m lc c us)
  show ?case
  proof (cases "count c < 20")
    case False
    then show ?thesis
      by (subst nest_chain_loop.simps, subst chain_loop.simps) simp
  next
    case True
    show ?thesis
    proof (cases "chain_step m lc c us")
      case None
      with True show ?thesis
        by (subst nest_chain_loop.simps, subst chain_loop.simps) (simp add: nest_chain_step_eq)
    next
      case (Some r)
      show ?thesis
      proof (cases r)
        case (Inl e)
        with True Some show ?thesis
          by (subst nest_chain_loop.simps, subst chain_loop.simps) (simp add: nest_chain_step_eq)
      next
        case (Inr p)
        obtain c2 us2 where p: "p = (c2, us2)" by (cases p)
        from "1.IH" [OF True Some Inr p [symmetric]]
        have "nest_chain_loop m lc c2 us2 = chain_loop m lc c2 us2" .
        with True Some Inr p show ?thesis
          by (subst nest_chain_loop.simps, subst chain_loop.simps) (simp add: nest_chain_step_eq)
      qed
    qed
  qed
qed

lemma nest_sample_eq:
  "nest_Metropolis_sampler_sample m seed lc no us = Metropolis_sampler_sample m seed lc no us"
  by (simp add: nest_Metropolis_sampler_sample_def Metropolis_sampler_sample_def
      nest_Metropolis_sampler_run_def Metropolis_sampler_run_def nest_start_chain_def
      start_chain_def nest_chain_loop_eq)

lemma start_chain_bump: "start_chain bump_model peak 0 = Inr chain0"
  by (simp add: start_chain_def bump_model_def chain0_def Let_def)

lemma bump_model_facts:
  "snd (getPrior_X bump_model) \<noteq> 0" "\<not> outside bump_model peak" "\<not> outside bump_model walked"
  "log_likelihood bump_model s = - ((X s - 100)\<^sup>2)"
  "Source_init bump_model = \<lparr>X = 0, Y = 0, A = 0, R = 0, logL = 0, logWt = 0\<rparr>"
  by (simp_all add: bump_model_def outside_def peak_def walked_def)

lemma first_step_bump:
  "\<exists>c1. chain_step bump_model (- 1000) chain0 (3/4 # 1/2 # 1/2 # 1/2 # us) = Some (Inr (c1, us)) \<and>
     metro c1 = walked \<and> new c1 = walked \<and> bord c1 = 1 \<and> count c1 = 1 \<and>
     hit c1 = 1 \<and> miss c1 = 0 \<and> step c1 = 8 * exp 1 \<and> stepX c1 = 8 * exp 1 \<and>
     stepY c1 = 8 * exp 1 \<and> stepA c1 = 13 * exp 1 / 25 \<and> stepR c1 = 7 * exp 1 / 25"
  by (simp add: chain_step_def candidate_loop_more candidate_loop_done propose_def perturb_def
      outside_def bump_model_def peak_def walked_def chain0_def evaluate_def decide_def adapt_def
      rescale_def advance_def Let_def)

section \<open>The claims about the Metropolis sampler\<close>

text \<open>
  Claim C9. The class \<open>Metropolis_sampler\<close> of metropolis.py and the class of the same name at
  the bottom of nest.py return the same Source and the same counter (and leave the same draws)
  for the same seed, constraint, counter, model and draws; they also raise, or fail to
  return, together.
\<close>

theorem Metropolis_sampler_duplicate_agrees:
  "nest_Metropolis_sampler_sample m seed lc no us = Metropolis_sampler_sample m seed lc no us"
  by (simp add: nest_Metropolis_sampler_sample_def Metropolis_sampler_sample_def
      nest_Metropolis_sampler_run_def Metropolis_sampler_run_def nest_start_chain_def
      start_chain_def nest_chain_loop_eq)

text \<open>
  Claim C3. A call of \<open>sample\<close> that returns has run the chain for exactly 20 passes and has
  evaluated the likelihood exactly 20 times, once in each pass; the counter it returns is the
  counter it was given plus 21, one more than the evaluations it made, since line 50 (line 216
  of nest.py) increments the counter once before the loop.
\<close>

theorem Metropolis_sampler_counter:
  assumes "Metropolis_sampler_run m seed lc no us = Some (Inr (c, us'))"
  shows "count c = 20 \<and> calls c = 20 \<and>
    Metropolis_sampler_sample m seed lc no us = Some (Inr ((metro c, no + 21), us')) \<and>
    nest_Metropolis_sampler_sample m seed lc no us = Some (Inr ((metro c, no + 21), us'))"
  using run_counts [OF assms] assms
  by (simp add: nest_sample_eq Metropolis_sampler_sample_def)

lemma run_bump_quiet:
  "\<exists>c. Metropolis_sampler_run bump_model peak lc no (replicate 80 (1/2) @ us) = Some (Inr (c, us)) \<and>
       metro c = peak"
proof -
  let ?p = "(Source_init bump_model)\<lparr>X := X peak, Y := Y peak, A := A peak, R := R peak\<rparr>"
  have p: "?p = peak" by (simp add: bump_model_def peak_def)
  have l: "log_likelihood bump_model peak = 0" by (simp add: bump_model_def peak_def)
  have "peak\<lparr>logL := 0\<rparr> = peak" by (simp add: peak_def)
  then have "log_likelihood bump_model (?p\<lparr>logL := log_likelihood bump_model ?p\<rparr>) =
      log_likelihood bump_model ?p"
    by (simp add: p l)
  from run_quiet [OF bump_model_facts(2,1) this, of lc no us]
  have "\<exists>c'. Metropolis_sampler_run bump_model peak lc no (replicate 80 (1/2) @ us) =
      Some (Inr (c', us)) \<and>
      metro c' = (if lc < log_likelihood bump_model peak
                  then peak\<lparr>logL := log_likelihood bump_model peak\<rparr> else peak)"
    unfolding p .
  with \<open>peak\<lparr>logL := 0\<rparr> = peak\<close> show ?thesis by (auto simp: l)
qed

text \<open>The run from the peak of the bump on draws of one half, with counter 5.\<close>

theorem Metropolis_sampler_counter_witness:
  "\<exists>c. Metropolis_sampler_run bump_model peak (- 1000) 5 (replicate 80 (1/2)) = Some (Inr (c, [])) \<and>
       count c = 20 \<and> calls c = 20 \<and>
       Metropolis_sampler_sample bump_model peak (- 1000) 5 (replicate 80 (1/2)) =
         Some (Inr ((peak, 26), []))"
proof -
  from run_bump_quiet [of "- 1000" 5 "[]"]
  obtain c where c: "Metropolis_sampler_run bump_model peak (- 1000) 5 (replicate 80 (1/2)) =
      Some (Inr (c, []))" and m: "metro c = peak"
    by auto
  from Metropolis_sampler_counter [OF c] m show ?thesis
    using c by auto
qed

text \<open>
  Claim C2, as amended. The Source that \<open>sample\<close> returns is the seed itself, when no candidate
  was accepted, or else has a \<open>logL\<close> above the constraint; so its \<open>logL\<close> is at least the seed's
  whenever the seed's \<open>logL\<close> is at most the constraint. A seed above the constraint can be
  left for a point of lower likelihood: from the peak of the bump (\<open>logL = 0\<close>) under the
  constraint \<open>- 1000\<close>, a first draw of 3/4 moves \<open>X\<close> to 104, where \<open>logL = - 16\<close>, and the
  candidate is accepted.
\<close>

theorem Metropolis_sampler_result_above_constraint_or_seed:
  assumes "Metropolis_sampler_sample m seed lc no us = Some (Inr ((s, n), us'))"
  shows "(s = seed \<or> lc < logL s) \<and> (logL seed \<le> lc \<longrightarrow> logL seed \<le> logL s)"
proof -
  from assms obtain c' where "Metropolis_sampler_run m seed lc no us = Some (Inr (c', us'))"
    and "s = metro c'" by (rule sample_Inr)
  with run_above_or_seed [of m seed lc no us c' us'] show ?thesis by auto
qed

lemma sample_bump_walk:
  "Metropolis_sampler_sample bump_model peak (- 1000) 0 (3/4 # replicate 79 (1/2)) =
     Some (Inr ((walked, 21), []))"
proof -
  obtain c1 where st: "chain_step bump_model (- 1000) chain0 (3/4 # 1/2 # 1/2 # 1/2 # replicate 76 (1/2))
      = Some (Inr (c1, replicate 76 (1/2)))"
    and f: "metro c1 = walked" "new c1 = walked" "bord c1 = 1" "count c1 = 1"
    using first_step_bump [of "replicate 76 (1/2)"] by blast
  have k: "count c1 + 19 = 20" by (simp add: f)
  have o: "\<not> outside bump_model (metro c1)" by (simp add: f bump_model_facts)
  have sp: "same_place (new c1) (metro c1)" by (simp add: f)
  have l: "log_likelihood bump_model (new c1) = logL (new c1)"
    by (simp add: f bump_model_facts(4)) (simp add: walked_def)
  from chain_loop_settled [OF f(3) o bump_model_facts(1) k sp l, of "- 1000" "[]"]
  obtain c' where lp: "chain_loop bump_model (- 1000) c1 (replicate 76 (1/2)) = Some (Inr (c', []))"
    and m': "metro c' = walked"
    by (auto simp: f)
  have rep: "3/4 # replicate 79 (1/2::real) = 3/4 # 1/2 # 1/2 # 1/2 # replicate 76 (1/2)"
    by (simp add: eval_nat_numeral)
  have run: "Metropolis_sampler_run bump_model peak (- 1000) 0 (3/4 # replicate 79 (1/2)) =
      Some (Inr (c', []))"
    unfolding rep
    by (simp add: Metropolis_sampler_run_def start_chain_bump chain_loop_unfold chain0_def [THEN arg_cong, of count] st lp)
  from run_counts [OF run] run m' show ?thesis
    by (simp add: Metropolis_sampler_sample_def)
qed

text \<open>The run from the peak that the first draw moves to \<open>X = 104\<close>.\<close>

theorem Metropolis_sampler_regresses_counterexample:
  "Metropolis_sampler_sample bump_model peak (- 1000) 0 (3/4 # replicate 79 (1/2)) =
     Some (Inr ((walked, 21), [])) \<and> logL walked < logL peak"
  by (simp add: sample_bump_walk) (simp add: walked_def peak_def)

text \<open>On the same run, the point returned is above the constraint and is not the seed.\<close>

theorem Metropolis_sampler_result_witness:
  "Metropolis_sampler_sample bump_model peak (- 1000) 0 (3/4 # replicate 79 (1/2)) =
     Some (Inr ((walked, 21), [])) \<and> - 1000 < logL walked \<and> walked \<noteq> peak"
  using Metropolis_sampler_result_above_constraint_or_seed [OF sample_bump_walk]
  by (simp add: sample_bump_walk) (simp add: walked_def peak_def)

text \<open>
  Claim C7. In a pass of the chain that completes, the accept/reject decision adds one to
  \<open>hit\<close> (candidate above the constraint) or to \<open>miss\<close>; then \<open>step\<close> is multiplied by
  \<open>exp (1 / hit)\<close> when \<open>hit > miss\<close>, divided by \<open>exp (1 / miss)\<close> when \<open>miss > hit\<close>, and left
  alone when they are equal; and the next pass finds \<open>stepX = step\<close> and, for each other
  dimension, the step \<open>(step / x_u) * (upper - lower)\<close> computed from the new \<open>step\<close>.
\<close>

theorem step_size_adapts_after_decision:
  assumes "chain_step m lc c us = Some (Inr (c', us'))"
  shows "(if lc < logL (new c') then hit c' = Suc (hit c) \<and> miss c' = miss c
          else hit c' = hit c \<and> miss c' = Suc (miss c)) \<and>
    step c' =
      (if miss c' < hit c' then step c * exp (1 / real (hit c'))
       else if hit c' < miss c' then step c / exp (1 / real (miss c'))
       else step c) \<and>
    stepX c' = step c' \<and>
    stepY c' = step c' / snd (getPrior_X m) * (snd (getPrior_Y m) - fst (getPrior_Y m)) \<and>
    stepA c' = step c' / snd (getPrior_X m) * (snd (getPrior_A m) - fst (getPrior_A m)) \<and>
    stepR c' = step c' / snd (getPrior_X m) * (snd (getPrior_R m) - fst (getPrior_R m))"
  using assms by (elim chain_step_fields) simp

lemma first_step_bump_rejected:
  "\<exists>c1. chain_step bump_model 0 chain0 (3/4 # 1/2 # 1/2 # 1/2 # us) = Some (Inr (c1, us)) \<and>
     metro c1 = peak \<and> new c1 = walked \<and> hit c1 = 0 \<and> miss c1 = 1 \<and> step c1 = 8 / exp 1"
  by (simp add: chain_step_def candidate_loop_more candidate_loop_done propose_def perturb_def
      outside_def bump_model_def peak_def walked_def chain0_def evaluate_def decide_def adapt_def
      rescale_def advance_def Let_def)

text \<open>The first pass from the peak, accepted under the constraint \<open>- 1000\<close> and rejected under 0.\<close>

theorem step_size_adapts_witness:
  "(\<exists>c'. chain_step bump_model (- 1000) chain0 [3/4, 1/2, 1/2, 1/2] = Some (Inr (c', [])) \<and>
      hit c' = 1 \<and> miss c' = 0 \<and> step c' = 8 * exp 1 \<and> stepX c' = 8 * exp 1 \<and>
      stepY c' = 8 * exp 1 \<and> stepA c' = 8 * exp 1 / 200 * 13 \<and> stepR c' = 8 * exp 1 / 200 * 7) \<and>
   (\<exists>c'. chain_step bump_model 0 chain0 [3/4, 1/2, 1/2, 1/2] = Some (Inr (c', [])) \<and>
      hit c' = 0 \<and> miss c' = 1 \<and> step c' = 8 / exp 1 \<and> stepX c' = 8 / exp 1 \<and>
      stepY c' = 8 / exp 1 \<and> stepA c' = 8 / exp 1 / 200 * 13 \<and> stepR c' = 8 / exp 1 / 200 * 7)"
proof -
  obtain c1 where st1: "chain_step bump_model (- 1000) chain0 [3/4, 1/2, 1/2, 1/2] = Some (Inr (c1, []))"
    and f1: "hit c1 = 1" "miss c1 = 0"
    using first_step_bump [of "[]"] by blast
  obtain c2 where st2: "chain_step bump_model 0 chain0 [3/4, 1/2, 1/2, 1/2] = Some (Inr (c2, []))"
    and f2: "hit c2 = 0" "miss c2 = 1"
    using first_step_bump_rejected [of "[]"] by blast
  have s0: "step chain0 = 8" by (simp add: chain0_def)
  have b: "getPrior_X bump_model = (0, 200)" "getPrior_Y bump_model = (0, 200)"
    "getPrior_A bump_model = (1, 14)" "getPrior_R bump_model = (2, 9)"
    by (simp_all add: bump_model_def)
  from step_size_adapts_after_decision [OF st1] f1 s0
  have "step c1 = 8 * exp 1 \<and> stepX c1 = 8 * exp 1 \<and>
      stepY c1 = 8 * exp 1 \<and> stepA c1 = 8 * exp 1 / 200 * 13 \<and> stepR c1 = 8 * exp 1 / 200 * 7"
    by (simp add: b)
  moreover from step_size_adapts_after_decision [OF st2] f2 s0
  have "step c2 = 8 / exp 1 \<and> stepX c2 = 8 / exp 1 \<and>
      stepY c2 = 8 / exp 1 \<and> stepA c2 = 8 / exp 1 / 200 * 13 \<and> stepR c2 = 8 / exp 1 / 200 * 7"
    by (simp add: b)
  ultimately show ?thesis using st1 st2 f1 f2 by blast
qed

section \<open>Properties of the main loop\<close>

lemma np_argmin_less: "xs \<noteq> [] \<Longrightarrow> np_argmin xs < length xs"
  by (induction xs rule: np_argmin.induct) (auto simp: Let_def)

lemma np_argmax_less: "xs \<noteq> [] \<Longrightarrow> np_argmax xs < length xs"
  by (induction xs rule: np_argmax.induct) (auto simp: Let_def)

text \<open>What lines 98 to 127 do to each attribute.\<close>

lemma discard_Inr:
  assumes "discard ns LogL = Inr (ns1, smallest)"
  defines "worst \<equiv> (active_samples ns ! smallest)
                     \<lparr>logWt := log_width ns + logL (active_samples ns ! smallest)\<rparr>"
  shows "LogL \<noteq> []" and "smallest = np_argmin LogL" and "smallest < length (active_samples ns)"
    and "active_samples ns1 = (active_samples ns)[smallest := worst]"
    and "posterior_inferences ns1 = posterior_inferences ns @ [worst]"
    and "log_evidence ns1 = np_logaddexp (log_evidence ns) (logWt worst)"
    and "log_width ns1 = log_width ns" and "no_active_samples ns1 = no_active_samples ns"
    and "maximum_iterations ns1 = maximum_iterations ns" and "sample ns1 = sample ns"
    and "no_likelihood ns1 = no_likelihood ns"
  using assms(1) unfolding worst_def
  by (auto simp: discard_def Let_def split: if_splits)

lemma replace_worst_fields:
  assumes "replace_worst ns LogL smallest updated k = (ns', LogL')"
  shows "active_samples ns' = (active_samples ns)[smallest := updated]"
    and "LogL' = LogL[smallest := logL updated]" and "no_likelihood ns' = k"
    and "posterior_inferences ns' = posterior_inferences ns"
    and "log_evidence ns' = log_evidence ns"
    and "log_width ns' = log_width ns" and "no_active_samples ns' = no_active_samples ns"
    and "maximum_iterations ns' = maximum_iterations ns" and "sample ns' = sample ns"
  using assms by (auto simp: replace_worst_def)

lemma resample_Inr:
  assumes "resample m ns LogL smallest survivor lc us = Some (Inr ((ns', LogL'), us'))"
  shows "posterior_inferences ns' = posterior_inferences ns"
    and "log_evidence ns' = log_evidence ns"
    and "log_width ns' = log_width ns" and "no_active_samples ns' = no_active_samples ns"
    and "maximum_iterations ns' = maximum_iterations ns" and "sample ns' = sample ns"
    and "length (active_samples ns') = length (active_samples ns)"
    and "length LogL' = length LogL"
  using assms
  by (auto simp: resample_def replace_worst_def split: if_splits sum.splits option.splits)

lemma shrink_fields [simp]:
  "posterior_inferences (shrink ns) = posterior_inferences ns"
  "log_evidence (shrink ns) = log_evidence ns"
  "log_width (shrink ns) = log_width ns - 1 / real_of_int (no_active_samples ns)"
  "no_active_samples (shrink ns) = no_active_samples ns"
  "maximum_iterations (shrink ns) = maximum_iterations ns" "sample (shrink ns) = sample ns"
  "active_samples (shrink ns) = active_samples ns" "no_likelihood (shrink ns) = no_likelihood ns"
  by (simp_all add: shrink_def)

lemma fit_iteration_Inr:
  assumes "fit_iteration m ns LogL us = Some (Inr ((ns', LogL'), us'))"
  obtains ns1 smallest survivor us1 ns2 where "discard ns LogL = Inr (ns1, smallest)"
    and "pick_survivor (no_active_samples ns1) (int smallest) us = Some (Inr (survivor, us1))"
    and "resample m ns1 LogL smallest survivor (logL (active_samples ns1 ! smallest)) us1 =
           Some (Inr ((ns2, LogL'), us'))"
    and "ns' = shrink ns2"
  using assms
  by (auto simp: fit_iteration_def split: sum.splits option.splits prod.splits)

lemma fit_iteration_fields:
  assumes "fit_iteration m ns LogL us = Some (Inr ((ns', LogL'), us'))"
  obtains worst where "worst \<in> set (active_samples ns)"
    and "posterior_inferences ns' =
           posterior_inferences ns @ [worst\<lparr>logWt := log_width ns + logL worst\<rparr>]"
    and "log_evidence ns' = np_logaddexp (log_evidence ns) (log_width ns + logL worst)"
    and "log_width ns' = log_width ns - 1 / real_of_int (no_active_samples ns)"
    and "no_active_samples ns' = no_active_samples ns"
    and "maximum_iterations ns' = maximum_iterations ns" and "sample ns' = sample ns"
    and "length (active_samples ns') = length (active_samples ns)"
    and "length LogL' = length LogL"
proof -
  from assms obtain ns1 smallest survivor us1 ns2 where d: "discard ns LogL = Inr (ns1, smallest)"
    and r: "resample m ns1 LogL smallest survivor (logL (active_samples ns1 ! smallest)) us1 =
           Some (Inr ((ns2, LogL'), us'))"
    and s: "ns' = shrink ns2"
    by (rule fit_iteration_Inr)
  note df = discard_Inr [OF d] and rf = resample_Inr [OF r]
  show ?thesis
  proof (rule that [of "active_samples ns ! smallest"])
    show "active_samples ns ! smallest \<in> set (active_samples ns)" using df(3) by simp
  qed (simp_all add: s rf df)
qed

text \<open>An invariant of the main loop that may depend on the number of passes made.\<close>

lemma fit_loop_invariant:
  assumes "fit_loop m its ns LogL us = Some (Inr ((ns', LogL'), us'))"
    and "P 0 ns LogL"
    and "\<And>k ns LogL us ns' LogL' us'.
           P k ns LogL \<Longrightarrow> fit_iteration m ns LogL us = Some (Inr ((ns', LogL'), us')) \<Longrightarrow>
           P (Suc k) ns' LogL'"
  shows "P (length its) ns' LogL'"
proof -
  have "P j ns LogL \<Longrightarrow> fit_loop m its ns LogL us = Some (Inr ((ns', LogL'), us')) \<Longrightarrow>
        P (j + length its) ns' LogL'" for j
  proof (induction its arbitrary: j ns LogL us)
    case Nil
    then show ?case by simp
  next
    case (Cons i its)
    from Cons.prems(2) obtain ns1 LogL1 us1
      where it: "fit_iteration m ns LogL us = Some (Inr ((ns1, LogL1), us1))"
        and lp: "fit_loop m its ns1 LogL1 us1 = Some (Inr ((ns', LogL'), us'))"
      by (auto split: option.splits sum.splits)
    from assms(3) [OF Cons.prems(1) it] have "P (Suc j) ns1 LogL1" .
    from Cons.IH [OF this lp] show ?case by simp
  qed
  from this [of 0] assms(1,2) show ?thesis by simp
qed

lemma fit_Inr:
  assumes "fit m ns us = Some (Inr ((r, ns'), us'))"
  obtains ns0 LogL' where "fit_start ns = Inr ns0"
    and "fit_loop m [1..maximum_iterations ns0 - 1] ns0 (map logL (active_samples ns0)) us =
           Some (Inr ((ns', LogL'), us'))"
    and "r = fit_result ns'"
  using assms by (auto simp: fit_def split: sum.splits option.splits)

lemma fit_start_Inr:
  assumes "fit_start ns = Inr ns0"
  shows "0 < no_active_samples ns" and "log_evidence ns0 = sentinel"
    and "log_width ns0 = ln (1 - exp (- 1 / real_of_int (no_active_samples ns)))"
    and "Information ns0 = 0" and "active_samples ns0 = active_samples ns"
    and "posterior_inferences ns0 = posterior_inferences ns"
    and "no_active_samples ns0 = no_active_samples ns"
    and "maximum_iterations ns0 = maximum_iterations ns" and "sample ns0 = sample ns"
    and "no_likelihood ns0 = no_likelihood ns"
proof -
  from assms have n0: "no_active_samples ns \<noteq> 0"
    and pos: "\<not> 1 - exp (- 1 / real_of_int (no_active_samples ns)) \<le> 0"
    and eq0: "ns0 = ns\<lparr>log_evidence := sentinel,
                  log_width := ln (1 - exp (- 1 / real_of_int (no_active_samples ns))),
                  Information := 0\<rparr>"
    by (auto simp: fit_start_def split: if_splits)
  from pos have "- 1 / real_of_int (no_active_samples ns) < 0" by simp
  with n0 show "0 < no_active_samples ns" by (simp add: field_simps)
  show "log_evidence ns0 = sentinel"
    and "log_width ns0 = ln (1 - exp (- 1 / real_of_int (no_active_samples ns)))"
    and "Information ns0 = 0" and "active_samples ns0 = active_samples ns"
    and "posterior_inferences ns0 = posterior_inferences ns"
    and "no_active_samples ns0 = no_active_samples ns"
    and "maximum_iterations ns0 = maximum_iterations ns" and "sample ns0 = sample ns"
    and "no_likelihood ns0 = no_likelihood ns"
    by (simp_all add: eq0)
qed

lemma fit_result_fields [simp]:
  "src (fit_result ns) = active_samples ns" "samples (fit_result ns) = posterior_inferences ns"
  "logZ (fit_result ns) = log_evidence ns" "iterations (fit_result ns) = maximum_iterations ns"
  "likelihood_calculations (fit_result ns) = no_likelihood ns"
  by (simp_all add: fit_result_def)

text \<open>The trace grows by one entry in each pass, and \<open>maximum_iterations\<close> is never written.\<close>

lemma fit_loop_trace:
  assumes "fit_loop m its ns LogL us = Some (Inr ((ns', LogL'), us'))"
  shows "length (posterior_inferences ns') = length (posterior_inferences ns) + length its \<and>
         maximum_iterations ns' = maximum_iterations ns"
proof -
  let ?P = "\<lambda>k n (L::real list). length (posterior_inferences n) = length (posterior_inferences ns) + k \<and>
              maximum_iterations n = maximum_iterations ns"
  have "?P (length its) ns' LogL'"
  proof (rule fit_loop_invariant [OF assms, where P = ?P])
    show "?P 0 ns LogL" by simp
  next
    fix k n L vs n' L' vs'
    assume "?P k n L" "fit_iteration m n L vs = Some (Inr ((n', L'), vs'))"
    then show "?P (Suc k) n' L'" by (elim fit_iteration_fields) simp
  qed
  then show ?thesis .
qed

lemma fit_loop_width:
  assumes "fit_loop m its ns LogL us = Some (Inr ((ns', LogL'), us'))"
  shows "log_width ns' = log_width ns - real (length its) / real_of_int (no_active_samples ns) \<and>
         no_active_samples ns' = no_active_samples ns"
proof -
  let ?P = "\<lambda>k n (L::real list).
      log_width n = log_width ns - real k / real_of_int (no_active_samples ns) \<and>
      no_active_samples n = no_active_samples ns"
  have "?P (length its) ns' LogL'"
  proof (rule fit_loop_invariant [OF assms, where P = ?P])
    show "?P 0 ns LogL" by simp
  next
    fix k n L vs n' L' vs'
    assume "?P k n L" "fit_iteration m n L vs = Some (Inr ((n', L'), vs'))"
    then show "?P (Suc k) n' L'"
      by (elim fit_iteration_fields) (simp add: add_divide_distrib)
  qed
  then show ?thesis .
qed


lemma outside_logL [simp]: "outside m (s\<lparr>logL := l\<rparr>) = outside m s"
  by (simp add: outside_def)

lemma outside_logWt [simp]: "outside m (s\<lparr>logWt := w\<rparr>) = outside m s"
  by (simp add: outside_def)

lemma run_inside:
  assumes "Metropolis_sampler_run m s lc no us = Some (Inr (c', us'))" and "\<not> outside m s"
  shows "\<not> outside m (metro c')"
proof -
  from assms(1) obtain c where c: "start_chain m s no = Inr c"
    and lp: "chain_loop m lc c us = Some (Inr (c', us'))" by (rule run_Inr)
  let ?P = "\<lambda>c. bord c = 1 \<and> \<not> outside m (metro c)"
  have "?P c' \<and> \<not> count c' < 20"
  proof (rule chain_loop_invariant [OF lp])
    show "?P c" using assms(2) by (simp add: start_chain_fields [OF c])
  next
    fix d vs d' vs'
    assume p: "?P d" and "count d < 20" and st: "chain_step m lc d vs = Some (Inr (d', vs'))"
    from st show "?P d'"
    proof (rule chain_step_fields)
      fix c1
      assume cl: "candidate_loop m d vs = Some (c1, vs')" and "bord d' = 1"
        and "new d' = (new c1)\<lparr>logL := log_likelihood m (new c1)\<rparr>"
        and "metro d' = (if log_likelihood m (new c1) > lc then new d' else metro d)"
      moreover from candidate_loop_inside [OF cl] p have "\<not> outside m (new c1)" by simp
      ultimately show "?P d'" using p by simp
    qed
  qed
  then show ?thesis by simp
qed

lemma sample_inside:
  assumes "nest_Metropolis_sampler_sample m s lc no us = Some (Inr ((s', k), us'))"
    and "\<not> outside m s"
  shows "\<not> outside m s'"
proof -
  from assms(1) have "Metropolis_sampler_sample m s lc no us = Some (Inr ((s', k), us'))"
    by (simp add: nest_sample_eq)
  then obtain c' where "Metropolis_sampler_run m s lc no us = Some (Inr (c', us'))"
    and "s' = metro c'" by (rule sample_Inr)
  with run_inside assms(2) show ?thesis by blast
qed

subsection \<open>The retries of \<open>clustered_sampling\<close>\<close>

lemma retry_state_shift:
  assumes "Clustered_Sampler_sample m pts lc 1 no us = Some (Inr ((smp, no2), us2))"
    and "\<not> lc < logL smp"
  shows "retry_state m pts lc no us (Suc k) = retry_state m pts lc no2 us2 k"
  by (induction k) (simp_all add: assms)

lemma clustered_sampling_sound_aux:
  assumes "clustered_sampling m pts lc no us = Some y"
  shows "from_a_retry m pts lc no us y"
  using assms
proof (rule clustered_sampling.raw_induct [where P = from_a_retry, rotated])
  fix cs m pts lc no us y
  assume IH: "\<And>m pts lc no us y. cs m pts lc no us = Some y \<Longrightarrow> from_a_retry m pts lc no us y"
    and eq: "(case Clustered_Sampler_sample m pts lc 1 no us of
                None \<Rightarrow> None
              | Some (Inl e) \<Rightarrow> Some (Inl e)
              | Some (Inr ((smp, number'), us')) \<Rightarrow>
                  if lc < logL smp then Some (Inr ((smp, number'), us'))
                  else cs m pts lc number' us') = Some y"
  show "from_a_retry m pts lc no us y"
    unfolding from_a_retry_def
  proof (intro allI impI)
    fix s n us'
    assume y: "y = Inr ((s, n), us')"
    obtain smp no2 us2
      where call: "Clustered_Sampler_sample m pts lc 1 no us = Some (Inr ((smp, no2), us2))"
    proof (cases "Clustered_Sampler_sample m pts lc 1 no us")
      case None
      with eq show ?thesis by simp
    next
      case (Some r)
      show ?thesis
      proof (cases r)
        case (Inl e)
        with Some eq y show ?thesis by simp
      next
        case (Inr p)
        obtain smp no2 us2 where "p = ((smp, no2), us2)" by (metis prod.exhaust)
        with Some Inr show ?thesis by (intro that) simp
      qed
    qed
    with eq y
    have rest: "(if lc < logL smp then Some (Inr ((smp, no2), us2)) else cs m pts lc no2 us2) =
              Some (Inr ((s, n), us'))"
      by simp
    show "\<exists>k no1 us1. retry_state m pts lc no us k = Some (no1, us1) \<and>
           Clustered_Sampler_sample m pts lc 1 no1 us1 = Some (Inr ((s, n), us')) \<and> lc < logL s"
    proof (cases "lc < logL smp")
      case True
      with rest call have "retry_state m pts lc no us 0 = Some (no, us) \<and>
          Clustered_Sampler_sample m pts lc 1 no us = Some (Inr ((s, n), us')) \<and> lc < logL s"
        by simp
      then show ?thesis by blast
    next
      case False
      with rest have "cs m pts lc no2 us2 = Some (Inr ((s, n), us'))" by simp
      from IH [OF this] obtain k no1 us1
        where "retry_state m pts lc no2 us2 k = Some (no1, us1)"
          "Clustered_Sampler_sample m pts lc 1 no1 us1 = Some (Inr ((s, n), us'))"
          "lc < logL s"
        unfolding from_a_retry_def by blast
      moreover have "retry_state m pts lc no us (Suc k) = retry_state m pts lc no2 us2 k"
        using call False by (rule retry_state_shift)
      ultimately have "retry_state m pts lc no us (Suc k) = Some (no1, us1) \<and>
          Clustered_Sampler_sample m pts lc 1 no1 us1 = Some (Inr ((s, n), us')) \<and> lc < logL s"
        by simp
      then show ?thesis by blast
    qed
  qed
qed

lemma clustered_sampling_sound:
  assumes "clustered_sampling m pts lc no us = Some (Inr ((s, n), us'))"
  shows "\<exists>k no1 us1. retry_state m pts lc no us k = Some (no1, us1) \<and>
           Clustered_Sampler_sample m pts lc 1 no1 us1 = Some (Inr ((s, n), us')) \<and> lc < logL s"
  using clustered_sampling_sound_aux [OF assms] unfolding from_a_retry_def by blast

lemma retry_state_first_call:
  "retry_state m pts lc no us (Suc k) = Some q \<Longrightarrow>
   \<exists>smp no2 us2. Clustered_Sampler_sample m pts lc 1 no us = Some (Inr ((smp, no2), us2)) \<and>
     \<not> lc < logL smp"
proof (induction k arbitrary: q)
  case 0
  then show ?case by (auto split: option.splits sum.splits prod.splits if_splits)
next
  case (Suc k)
  from Suc.prems obtain q' where "retry_state m pts lc no us (Suc k) = Some q'"
    by (subst (asm) retry_state.simps(2)) (auto split: option.splits)
  then show ?case by (rule Suc.IH)
qed

lemma clustered_sampling_complete:
  assumes "retry_state m pts lc no us k = Some (no1, us1)"
    and "Clustered_Sampler_sample m pts lc 1 no1 us1 = Some (Inr ((s, n), us'))"
    and "lc < logL s"
  shows "clustered_sampling m pts lc no us = Some (Inr ((s, n), us'))"
  using assms
proof (induction k arbitrary: no us)
  case 0
  then show ?case by (subst clustered_sampling.simps) simp
next
  case (Suc k)
  from retry_state_first_call [OF Suc.prems(1)] obtain smp no2 us2
    where call: "Clustered_Sampler_sample m pts lc 1 no us = Some (Inr ((smp, no2), us2))"
      and low: "\<not> lc < logL smp"
    by blast
  from Suc.prems(1) have r: "retry_state m pts lc no2 us2 k = Some (no1, us1)"
    by (simp only: retry_state_shift [OF call low])
  from Suc.IH [OF r Suc.prems(2,3)] call low show ?case
    by (subst clustered_sampling.simps) simp
qed

subsection \<open>The ensemble, the trace and the choice of the survivor\<close>

lemma list_item_in_set: "list_item xs i = Inr x \<Longrightarrow> x \<in> set xs"
  by (auto simp: list_item_def split: if_splits)

lemma resample_cases:
  assumes "resample m ns LogL smallest survivor lc us = Some (Inr ((ns', LogL'), us'))"
  obtains (metropolis) obj updated k where "sample ns = ''metropolis''"
      "list_item (active_samples ns) survivor = Inr obj"
      "nest_Metropolis_sampler_sample m obj lc (no_likelihood ns) us = Some (Inr ((updated, k), us'))"
      "replace_worst ns LogL smallest updated k = (ns', LogL')"
  | (clustered) updated k where "sample ns = ''clustered_ellipsoidal''"
      "clustered_sampling m (active_samples ns) lc (no_likelihood ns) us =
         Some (Inr ((updated, k), us'))"
      "replace_worst ns LogL smallest updated k = (ns', LogL')"
  | (neither) "sample ns \<noteq> ''metropolis''" "sample ns \<noteq> ''clustered_ellipsoidal''"
      "ns' = ns" "LogL' = LogL" "us' = us"
proof (cases "sample ns = ''metropolis''")
  case True
  with assms show ?thesis
    by (auto simp: resample_def metropolis_sampling_def split: sum.splits option.splits
        intro: metropolis)
next
  case False
  show ?thesis
  proof (cases "sample ns = ''clustered_ellipsoidal''")
    case True
    with assms show ?thesis
      by (auto simp: resample_def split: sum.splits option.splits intro: clustered)
  next
    case notc: False
    with False assms show ?thesis by (auto simp: resample_def intro: neither)
  qed
qed

text \<open>One pass of the main loop keeps the ensemble and the trace inside the bounds.\<close>

lemma fit_iteration_inside:
  assumes it: "fit_iteration m ns LogL us = Some (Inr ((ns', LogL'), us'))"
    and act: "\<forall>s\<in>set (active_samples ns). \<not> outside m s"
    and tr: "\<forall>s\<in>set (posterior_inferences ns). \<not> outside m s"
    and ext: "\<And>pts lc e no us s k us'.
       Clustered_Sampler_sample m pts lc e no us = Some (Inr ((s, k), us')) \<Longrightarrow> \<not> outside m s"
  shows "(\<forall>s\<in>set (active_samples ns'). \<not> outside m s) \<and>
         (\<forall>s\<in>set (posterior_inferences ns'). \<not> outside m s)"
proof -
  from it obtain ns1 smallest survivor us1 ns2 where d: "discard ns LogL = Inr (ns1, smallest)"
    and r: "resample m ns1 LogL smallest survivor (logL (active_samples ns1 ! smallest)) us1 =
           Some (Inr ((ns2, LogL'), us'))"
    and s: "ns' = shrink ns2"
    by (rule fit_iteration_Inr)
  note df = discard_Inr [OF d] and rf = resample_Inr [OF r]
  let ?worst = "(active_samples ns ! smallest)
                     \<lparr>logWt := log_width ns + logL (active_samples ns ! smallest)\<rparr>"
  from df(3) act have w: "\<not> outside m ?worst" by simp
  have tr1: "\<forall>s\<in>set (posterior_inferences ns1). \<not> outside m s"
    using tr w by (simp add: df(5))
  have act1: "\<forall>s\<in>set (active_samples ns1). \<not> outside m s"
    using act w set_update_subset_insert [of "active_samples ns" smallest ?worst]
    by (auto simp: df(4))
  have act2: "\<forall>s\<in>set (active_samples ns2). \<not> outside m s"
    using r
  proof (cases rule: resample_cases)
    case (metropolis obj updated k)
    from metropolis(2) act1 have "\<not> outside m obj" by (auto dest: list_item_in_set)
    with metropolis(3) have u: "\<not> outside m updated" by (rule sample_inside)
    from metropolis(4) have "active_samples ns2 = (active_samples ns1)[smallest := updated]"
      by (rule replace_worst_fields)
    with act1 u set_update_subset_insert [of "active_samples ns1" smallest updated]
    show ?thesis by auto
  next
    case (clustered updated k)
    from clustered_sampling_sound [OF clustered(2)] ext have u: "\<not> outside m updated" by blast
    from clustered(3) have "active_samples ns2 = (active_samples ns1)[smallest := updated]"
      by (rule replace_worst_fields)
    with act1 u set_update_subset_insert [of "active_samples ns1" smallest updated]
    show ?thesis by auto
  next
    case neither
    with act1 show ?thesis by simp
  qed
  with tr1 show ?thesis by (simp add: s rf)
qed

lemma fit_loop_inside:
  assumes lp: "fit_loop m its ns LogL us = Some (Inr ((ns', LogL'), us'))"
    and act: "\<forall>s\<in>set (active_samples ns). \<not> outside m s"
    and tr: "\<forall>s\<in>set (posterior_inferences ns). \<not> outside m s"
    and ext: "\<And>pts lc e no us s k us'.
       Clustered_Sampler_sample m pts lc e no us = Some (Inr ((s, k), us')) \<Longrightarrow> \<not> outside m s"
  shows "(\<forall>s\<in>set (active_samples ns'). \<not> outside m s) \<and>
         (\<forall>s\<in>set (posterior_inferences ns'). \<not> outside m s)"
proof -
  let ?P = "\<lambda>(k::nat) n (L::real list). (\<forall>s\<in>set (active_samples n). \<not> outside m s) \<and>
         (\<forall>s\<in>set (posterior_inferences n). \<not> outside m s)"
  have "?P (length its) ns' LogL'"
  proof (rule fit_loop_invariant [OF lp, where P = ?P])
    show "?P 0 ns LogL" using act tr by simp
  next
    fix k n L vs n' L' vs'
    assume "?P k n L" and "fit_iteration m n L vs = Some (Inr ((n', L'), vs'))"
    then show "?P (Suc k) n' L'" using fit_iteration_inside [of m n L vs n' L' vs'] ext by blast
  qed
  then show ?thesis .
qed


lemma pick_survivor_Inr:
  "pick_survivor n smallest us = Some (Inr (sv, us')) \<Longrightarrow> n \<noteq> 0 \<and> sv \<noteq> smallest"
  by (induction us) (auto simp: Let_def split: if_splits)



subsection \<open>A run of \<open>fit\<close> on two points\<close>

lemma sample_quiet_peak:
  assumes "snd (getPrior_X m) \<noteq> 0" and "\<not> outside m peak"
    and "Source_init m = \<lparr>X = 0, Y = 0, A = 0, R = 0, logL = 0, logWt = 0\<rparr>"
    and "log_likelihood m peak = 0" and "lc < 0"
  shows "nest_Metropolis_sampler_sample m peak lc no (replicate 80 (1/2) @ us) =
           Some (Inr ((peak, no + 21), us))"
proof -
  let ?p = "(Source_init m)\<lparr>X := X peak, Y := Y peak, A := A peak, R := R peak\<rparr>"
  have p: "?p = peak" by (simp add: assms(3) peak_def)
  have pk: "peak\<lparr>logL := 0\<rparr> = peak" by (simp add: peak_def)
  have "log_likelihood m (?p\<lparr>logL := log_likelihood m ?p\<rparr>) = log_likelihood m ?p"
    unfolding p by (simp add: assms(4) pk)
  from run_quiet [OF assms(2,1) this, of lc no us]
  have "\<exists>c'. Metropolis_sampler_run m peak lc no (replicate 80 (1/2) @ us) =
      Some (Inr (c', us)) \<and>
      metro c' = (if lc < log_likelihood m peak
                  then peak\<lparr>logL := log_likelihood m peak\<rparr> else peak)"
    unfolding p .
  then obtain c' where run: "Metropolis_sampler_run m peak lc no (replicate 80 (1/2) @ us) =
      Some (Inr (c', us))" and "metro c' = peak"
    using pk by (auto simp: assms(4))
  with run_counts [OF run] show ?thesis
    by (simp add: nest_sample_eq Metropolis_sampler_sample_def)
qed

lemma two_points_start: "fit_start (two_points l) = Inr (two_points_started l)"
  by (simp add: fit_start_def two_points_def Nested_Sampler_init_def two_points_started_def)

lemma two_points_loop:
  assumes "snd (getPrior_X m) \<noteq> 0" and "\<not> outside m peak"
    and "Source_init m = \<lparr>X = 0, Y = 0, A = 0, R = 0, logL = 0, logWt = 0\<rparr>"
    and "log_likelihood m peak = 0" and "l < 0"
  shows "fit_loop m [1] (two_points_started l) [l, 0] (replicate 81 (1/2)) =
           Some (Inr ((two_points_done l, [0, 0]), []))"
proof -
  define w where "w = ln (1 - exp (- 1 / 2)) + l"
  define z where "z = np_logaddexp sentinel w"
  define ns0 where "ns0 = two_points_started l"
  define ns1 where "ns1 = ns0\<lparr>active_samples := [(far l)\<lparr>logWt := w\<rparr>, peak],
      Information := exp (w - z) * l + exp (sentinel - z) * (0 + sentinel) - z,
      log_evidence := z, posterior_inferences := [(far l)\<lparr>logWt := w\<rparr>]\<rparr>"
  note unf = ns0_def two_points_started_def two_points_def Nested_Sampler_init_def
  have d: "discard ns0 [l, 0] = Inr (ns1, 0)"
    using assms(5)
    by (simp add: discard_def Let_def unf ns1_def far_def peak_def w_def z_def)
  have n1: "no_active_samples ns1 = 2"
    by (simp add: ns1_def unf)
  have rep: "replicate 81 (1/2::real) = 1/2 # replicate 80 (1/2)"
    by (simp add: eval_nat_numeral)
  have pick: "pick_survivor (no_active_samples ns1) 0 (replicate 81 (1/2)) =
      Some (Inr (1, replicate 80 (1/2)))"
    unfolding n1 rep by (simp add: py_int_def)
  have smp: "nest_Metropolis_sampler_sample m peak l 2 (replicate 80 (1/2)) =
           Some (Inr ((peak, 23), []))"
    using sample_quiet_peak [OF assms, of 2 "[]"] by simp
  have res: "resample m ns1 [l, 0] 0 1 (logL (active_samples ns1 ! 0)) (replicate 80 (1/2)) =
      Some (Inr ((ns1\<lparr>active_samples := [peak, peak], no_likelihood := 23\<rparr>, [0, 0]), []))"
    by (simp add: resample_def metropolis_sampling_def list_item_def replace_worst_def ns1_def
        unf far_def smp) (simp add: peak_def)
  have fin: "shrink (ns1\<lparr>active_samples := [peak, peak], no_likelihood := 23\<rparr>) =
      two_points_done l"
    by (simp add: shrink_def ns1_def unf two_points_done_def Let_def w_def z_def)
  have "fit_iteration m ns0 [l, 0] (replicate 81 (1/2)) =
      Some (Inr ((two_points_done l, [0, 0]), []))"
    by (simp add: fit_iteration_def d pick res fin)
  then show ?thesis by (simp add: ns0_def)
qed

lemma two_points_run:
  assumes "snd (getPrior_X m) \<noteq> 0" and "\<not> outside m peak"
    and "Source_init m = \<lparr>X = 0, Y = 0, A = 0, R = 0, logL = 0, logWt = 0\<rparr>"
    and "log_likelihood m peak = 0" and "l < 0"
  shows "fit m (two_points l) (replicate 81 (1/2)) =
           Some (Inr ((fit_result (two_points_done l), two_points_done l), []))"
proof -
  have its: "[1..maximum_iterations (two_points_started l) - 1] = [1]"
    by (simp add: two_points_started_def two_points_def Nested_Sampler_init_def)
  have LogL: "map logL (active_samples (two_points_started l)) = [l, 0]"
    by (simp add: two_points_started_def two_points_def Nested_Sampler_init_def far_def peak_def)
  show ?thesis
    unfolding fit_def two_points_start sum.case its LogL two_points_loop [OF assms] by simp
qed


lemma bump_model_peak: "log_likelihood bump_model peak = 0"
  "log_likelihood bump_model (far l) = - 100" "\<not> outside bump_model (far l)"
  by (simp_all add: bump_model_def peak_def far_def outside_def)


section \<open>The claims about the nested sampler\<close>

text \<open>
  Claim C1. A call of \<open>fit\<close> on a fresh sampler (empty trace) that returns has appended one
  trace entry in each pass of its main loop, and the loop \<open>for iteration in range(1,
  self.maximum_iterations)\<close> makes \<open>maximum_iterations - 1\<close> passes (none when that is not
  positive), not \<open>maximum_iterations\<close> passes; the value returned under \<open>iterations\<close> is
  \<open>maximum_iterations\<close> itself, which is not the number of passes made.
\<close>

theorem fit_runs_one_iteration_less:
  assumes "fit m ns us = Some (Inr ((r, ns'), us'))" and "posterior_inferences ns = []"
  shows "length (samples r) = nat (maximum_iterations ns - 1) \<and>
         iterations r = maximum_iterations ns"
proof -
  from assms(1) obtain ns0 LogL' where st: "fit_start ns = Inr ns0"
    and lp: "fit_loop m [1..maximum_iterations ns0 - 1] ns0 (map logL (active_samples ns0)) us =
           Some (Inr ((ns', LogL'), us'))"
    and r: "r = fit_result ns'"
    by (rule fit_Inr)
  note f = fit_start_Inr [OF st]
  from fit_loop_trace [OF lp] assms(2) show ?thesis
    by (simp add: r f)
qed

text \<open>With \<open>maximum_iterations = 2\<close> the run on two points makes one pass.\<close>

theorem fit_runs_one_iteration_less_witness:
  "fit bump_model (two_points (- 100)) (replicate 81 (1/2)) =
     Some (Inr ((fit_result (two_points_done (- 100)), two_points_done (- 100)), [])) \<and>
   maximum_iterations (two_points (- 100)) = 2 \<and>
   length (samples (fit_result (two_points_done (- 100)))) = 1 \<and>
   iterations (fit_result (two_points_done (- 100))) = 2"
proof -
  have run: "fit bump_model (two_points (- 100)) (replicate 81 (1/2)) =
     Some (Inr ((fit_result (two_points_done (- 100)), two_points_done (- 100)), []))"
    by (rule two_points_run [OF bump_model_facts(1,2,5) bump_model_peak(1)]) simp
  have e: "posterior_inferences (two_points (- 100)) = []"
    and mx: "maximum_iterations (two_points (- 100)) = 2"
    by (simp_all add: two_points_def Nested_Sampler_init_def)
  from fit_runs_one_iteration_less [OF run e] run mx show ?thesis by simp
qed

text \<open>
  Claim C5. \<open>fit\<close> starts \<open>log_width\<close> at \<open>log (1 - exp (- 1 / N))\<close>, and after \<open>k\<close> completed
  passes of the main loop (\<open>k\<close> is the length of the list of iteration values) it is
  \<open>log (1 - exp (- 1 / N)) - k / N\<close>, whatever the model, the draws and the likelihood values.
\<close>

theorem log_width_after_iterations:
  assumes "fit_start ns = Inr ns0"
    and "fit_loop m its ns0 LogL us = Some (Inr ((ns', LogL'), us'))"
  shows "log_width ns0 = ln (1 - exp (- 1 / real_of_int (no_active_samples ns))) \<and>
         log_width ns' =
           ln (1 - exp (- 1 / real_of_int (no_active_samples ns))) -
           real (length its) / real_of_int (no_active_samples ns)"
  using fit_loop_width [OF assms(2)] fit_start_Inr [OF assms(1)] by simp

text \<open>The width before and after the one pass of the run on two points.\<close>

theorem log_width_after_iterations_witness:
  "fit_start (two_points (- 100)) = Inr (two_points_started (- 100)) \<and>
   fit_loop bump_model [1] (two_points_started (- 100)) [- 100, 0] (replicate 81 (1/2)) =
     Some (Inr ((two_points_done (- 100), [0, 0]), [])) \<and>
   log_width (two_points_started (- 100)) = ln (1 - exp (- 1 / 2)) \<and>
   log_width (two_points_done (- 100)) = ln (1 - exp (- 1 / 2)) - 1 / 2"
proof -
  have lp: "fit_loop bump_model [1] (two_points_started (- 100)) [- 100, 0] (replicate 81 (1/2)) =
     Some (Inr ((two_points_done (- 100), [0, 0]), []))"
    by (rule two_points_loop [OF bump_model_facts(1,2,5) bump_model_peak(1)]) simp
  have n: "no_active_samples (two_points (- 100)) = 2"
    by (simp add: two_points_def Nested_Sampler_init_def)
  from log_width_after_iterations [OF two_points_start lp] lp show ?thesis
    by (simp add: two_points_start n)
qed






text \<open>
  Claim C8. If every Source of the ensemble (and of the trace so far) is inside the prior
  bounds, then after any number of passes of the main loop, and in what \<open>fit\<close> returns, every
  Source of the ensemble and of the trace is inside the bounds. The Metropolis strategy
  guarantees it by itself; for the clustered strategy, whose sampler is a parameter, the
  sampler is assumed to return only points inside the bounds. A call of the Metropolis
  sampler on a seed inside the bounds returns a point inside the bounds: a candidate is
  generated again until no bound test fires, and only such a candidate replaces the chain's
  state.
\<close>

theorem ensemble_and_trace_stay_in_bounds:
  assumes "\<forall>s\<in>set (active_samples ns). \<not> outside m s"
    and "\<forall>s\<in>set (posterior_inferences ns). \<not> outside m s"
    and "\<forall>pts lc e no us s k us'.
       Clustered_Sampler_sample m pts lc e no us = Some (Inr ((s, k), us')) \<longrightarrow> \<not> outside m s"
  shows "(fit_loop m its ns LogL us = Some (Inr ((ns', LogL'), us')) \<longrightarrow>
           (\<forall>s\<in>set (active_samples ns') \<union> set (posterior_inferences ns'). \<not> outside m s)) \<and>
         (fit m ns vs = Some (Inr ((r, ns''), vs')) \<longrightarrow>
           (\<forall>s\<in>set (src r) \<union> set (samples r). \<not> outside m s)) \<and>
         (\<not> outside m seed \<and>
          nest_Metropolis_sampler_sample m seed lc no ws = Some (Inr ((s', k'), ws')) \<longrightarrow>
            \<not> outside m s')"
proof (intro conjI impI)
  assume "\<not> outside m seed \<and>
          nest_Metropolis_sampler_sample m seed lc no ws = Some (Inr ((s', k'), ws'))"
  then show "\<not> outside m s'" using sample_inside by blast
next
  assume "fit_loop m its ns LogL us = Some (Inr ((ns', LogL'), us'))"
  then have "(\<forall>s\<in>set (active_samples ns'). \<not> outside m s) \<and>
         (\<forall>s\<in>set (posterior_inferences ns'). \<not> outside m s)"
    using assms(1,2)
  proof (rule fit_loop_inside)
    fix pts lc e no us s k us'
    assume "Clustered_Sampler_sample m pts lc e no us = Some (Inr ((s, k), us'))"
    with assms(3) show "\<not> outside m s" by blast
  qed
  then show "\<forall>s\<in>set (active_samples ns') \<union> set (posterior_inferences ns'). \<not> outside m s"
    by blast
next
  assume "fit m ns vs = Some (Inr ((r, ns''), vs'))"
  then obtain ns0 LogL' where st: "fit_start ns = Inr ns0"
    and lp: "fit_loop m [1..maximum_iterations ns0 - 1] ns0 (map logL (active_samples ns0)) vs =
           Some (Inr ((ns'', LogL'), vs'))"
    and r: "r = fit_result ns''"
    by (rule fit_Inr)
  note f = fit_start_Inr [OF st]
  from assms(1,2) have "\<forall>s\<in>set (active_samples ns0). \<not> outside m s"
    and "\<forall>s\<in>set (posterior_inferences ns0). \<not> outside m s"
    by (simp_all add: f)
  with lp have "(\<forall>s\<in>set (active_samples ns''). \<not> outside m s) \<and>
         (\<forall>s\<in>set (posterior_inferences ns''). \<not> outside m s)"
  proof (rule fit_loop_inside)
    fix pts lc e no us s k us'
    assume "Clustered_Sampler_sample m pts lc e no us = Some (Inr ((s, k), us'))"
    with assms(3) show "\<not> outside m s" by blast
  qed
  then show "\<forall>s\<in>set (src r) \<union> set (samples r). \<not> outside m s"
    by (auto simp: r)
qed

text \<open>The run on two points starts and ends inside the bounds.\<close>

theorem ensemble_and_trace_stay_in_bounds_witness:
  "fit bump_model (two_points (- 100)) (replicate 81 (1/2)) =
     Some (Inr ((fit_result (two_points_done (- 100)), two_points_done (- 100)), [])) \<and>
   list_all (\<lambda>s. \<not> outside bump_model s) (active_samples (two_points (- 100))) \<and>
   list_all (\<lambda>s. \<not> outside bump_model s) (src (fit_result (two_points_done (- 100)))) \<and>
   list_all (\<lambda>s. \<not> outside bump_model s) (samples (fit_result (two_points_done (- 100))))"
proof -
  have run: "fit bump_model (two_points (- 100)) (replicate 81 (1/2)) =
     Some (Inr ((fit_result (two_points_done (- 100)), two_points_done (- 100)), []))"
    by (rule two_points_run [OF bump_model_facts(1,2,5) bump_model_peak(1)]) simp
  have a: "\<forall>s\<in>set (active_samples (two_points (- 100))). \<not> outside bump_model s"
    by (simp add: two_points_def Nested_Sampler_init_def bump_model_facts bump_model_peak)
  have t: "\<forall>s\<in>set (posterior_inferences (two_points (- 100))). \<not> outside bump_model s"
    by (simp add: two_points_def Nested_Sampler_init_def)
  have x: "\<forall>pts lc e no us s k us'.
       Clustered_Sampler_sample bump_model pts lc e no us = Some (Inr ((s, k), us')) \<longrightarrow>
       \<not> outside bump_model s"
    by (simp add: bump_model_def)
  have "fit bump_model (two_points (- 100)) (replicate 81 (1/2)) =
      Some (Inr ((fit_result (two_points_done (- 100)), two_points_done (- 100)), [])) \<longrightarrow>
    (\<forall>s\<in>set (src (fit_result (two_points_done (- 100)))) \<union>
          set (samples (fit_result (two_points_done (- 100)))). \<not> outside bump_model s)"
    using ensemble_and_trace_stay_in_bounds [OF a t x] by blast
  with run a show ?thesis by (simp add: list_all_iff)
qed

text \<open>
  Claim C6. Whenever \<open>clustered_sampling\<close> returns a point, its \<open>logL\<close> is strictly above the
  constraint, and the point and the counter are those returned by an attempt of the clustered
  sampler that was started with the counter and the draws left by the attempt before it
  (\<open>retry_state\<close>), every earlier attempt having returned a point not above the constraint.
\<close>

theorem clustered_sampling_returns_above_constraint:
  assumes "clustered_sampling m active_points lc likelihood_calc us = Some (Inr ((s, n), us'))"
  shows "lc < logL s \<and>
    (\<exists>k no1 us1. retry_state m active_points lc likelihood_calc us k = Some (no1, us1) \<and>
       Clustered_Sampler_sample m active_points lc 1 no1 us1 = Some (Inr ((s, n), us')))"
  using clustered_sampling_sound [OF assms] by blast

text \<open>Two attempts of the scanning sampler: \<open>X = 50\<close> fails, \<open>X = 100\<close> is returned.\<close>

theorem clustered_sampling_returns_witness:
  "clustered_sampling scan_model [far (- 100), peak] (- 100) 7 [1/4, 1/2] =
     Some (Inr ((peak, 9), [])) \<and>
   - 100 < logL peak \<and>
   retry_state scan_model [far (- 100), peak] (- 100) 7 [1/4, 1/2] 1 = Some (8, [1/2]) \<and>
   Clustered_Sampler_sample scan_model [far (- 100), peak] (- 100) 1 8 [1/2] =
     Some (Inr ((peak, 9), []))"
proof -
  have second: "Clustered_Sampler_sample scan_model [far (- 100), peak] (- 100) 1 8 [1/2] =
     Some (Inr ((peak, 9), []))"
    by (simp add: scan_model_def peak_def)
  have first: "retry_state scan_model [far (- 100), peak] (- 100) 7 [1/4, 1/2] 1 = Some (8, [1/2])"
    by (simp add: scan_model_def)
  have above: "- 100 < logL peak" by (simp add: peak_def)
  have run: "clustered_sampling scan_model [far (- 100), peak] (- 100) 7 [1/4, 1/2] =
     Some (Inr ((peak, 9), []))"
    using first second above by (rule clustered_sampling_complete)
  from clustered_sampling_returns_above_constraint [OF run] run first second
  show ?thesis by simp
qed



end
